theory Spec2Isabelle
  imports Main
begin

section \<open>gocept.recipe.bowerstaticbundler: the bundling recipe\<close>

text \<open>
  A shallow embedding of \<^verbatim>\<open>src/gocept/recipe/bowerstaticbundler/__init__.py\<close>.
  Python 2 byte strings are \<^typ>\<open>string\<close>; every raise of the source is an
  \<open>Inl\<close> of the result type.
\<close>

subsection \<open>Python string operations used by the recipe\<close>

text \<open>\<^verbatim>\<open>s.startswith(p)\<close>\<close>

definition startswith :: "string \<Rightarrow> string \<Rightarrow> bool" where
  "startswith s p = (take (length p) s = p)"

text \<open>\<^verbatim>\<open>s[1:-1]\<close>: empty for a string of fewer than two characters.\<close>

definition slice_1_m1 :: "string \<Rightarrow> string" where
  "slice_1_m1 s = butlast (tl s)"

text \<open>\<^verbatim>\<open>s.split(c)[0]\<close>: the part before the first \<open>c\<close>, all of \<open>s\<close> without one.\<close>

definition split_head :: "char \<Rightarrow> string \<Rightarrow> string" where
  "split_head c s = takeWhile (\<lambda>x. x \<noteq> c) s"

text \<open>
  \<^verbatim>\<open>s.replace(old, new, 1)\<close> of CPython 2.7: the leftmost occurrence of \<open>old\<close> is
  replaced; an empty \<open>old\<close> inserts \<open>new\<close> in front, except that an empty \<open>s\<close> is
  returned as it is.
\<close>

fun replace_scan :: "string \<Rightarrow> string \<Rightarrow> string \<Rightarrow> string" where
  "replace_scan old new [] = []"
| "replace_scan old new (c # cs) =
     (if startswith (c # cs) old then new @ drop (length old) (c # cs)
      else c # replace_scan old new cs)"

definition replace_1 :: "string \<Rightarrow> string \<Rightarrow> string \<Rightarrow> string" where
  "replace_1 s old new = (if s = [] then [] else replace_scan old new s)"

subsection \<open>posixpath\<close>

text \<open>\<^verbatim>\<open>os.path.join(a, b)\<close>\<close>

definition path_join :: "string \<Rightarrow> string \<Rightarrow> string" where
  "path_join a b =
     (if startswith b ''/'' then b
      else if a = [] \<or> last a = CHR ''/'' then a @ b
      else a @ ''/'' @ b)"

text \<open>\<^verbatim>\<open>os.path.basename(p)\<close>: what follows the last slash.\<close>

definition basename :: "string \<Rightarrow> string" where
  "basename p = rev (takeWhile (\<lambda>x. x \<noteq> CHR ''/'') (rev p))"

text \<open>
  \<^verbatim>\<open>os.path.dirname(p)\<close>: what precedes the last slash, with trailing slashes removed
  unless it consists of slashes only.
\<close>

definition dirname :: "string \<Rightarrow> string" where
  "dirname p =
     (let head = rev (dropWhile (\<lambda>x. x \<noteq> CHR ''/'') (rev p))
      in if head \<noteq> [] \<and> (\<exists>x \<in> set head. x \<noteq> CHR ''/'')
         then rev (dropWhile (\<lambda>x. x = CHR ''/'') (rev head))
         else head)"

subsection \<open>\<^verbatim>\<open>Recipe._sanitize_filename\<close>\<close>

definition sanitize_filename :: "string \<Rightarrow> string" where
  "sanitize_filename filename =
     (let f1 = (if startswith filename [CHR 0x22] \<or> startswith filename [CHR 0x27]
                then slice_1_m1 filename else filename);
          f2 = (if CHR ''?'' \<in> set f1 then split_head (CHR ''?'') f1 else f1);
          f3 = (if CHR ''#'' \<in> set f2 then split_head (CHR ''#'') f2 else f2)
      in f3)"

text \<open>\<^verbatim>\<open>s.replace('.', '_')\<close>: every occurrence of one character.\<close>

definition replace_char :: "char \<Rightarrow> char \<Rightarrow> string \<Rightarrow> string" where
  "replace_char a b s = map (\<lambda>c. if c = a then b else c) s"

subsection \<open>\<^verbatim>\<open>CSS_URL_REGEXP.findall\<close>\<close>

text \<open>
  The pattern is \<^verbatim>\<open>url\((.*?)\)\<close>. After \<^verbatim>\<open>url(\<close> the lazy group takes the characters up to
  the first closing parenthesis; the dot does not match a newline, so a newline before
  that parenthesis makes the attempt at this position fail. \<open>url_group\<close> returns the
  group and the text after the match.
\<close>

fun url_group :: "string \<Rightarrow> (string \<times> string) option" where
  "url_group [] = None"
| "url_group (c # cs) =
     (if c = CHR '')'' then Some ([], cs)
      else if c = CHR 0x0A then None
      else (case url_group cs of None \<Rightarrow> None | Some (t, r) \<Rightarrow> Some (c # t, r)))"

lemma url_group_shorter: "url_group s = Some (t, r) \<Longrightarrow> length r < length s"
  by (induction s arbitrary: t r) (auto split: if_splits option.splits)

text \<open>
  \<^verbatim>\<open>findall\<close>: the groups of the non-overlapping matches, from left to right; the scan
  goes on after a match, and one character further where no match starts.
\<close>

function findall_url :: "string \<Rightarrow> string list" where
  "findall_url [] = []"
| "findall_url (c # cs) =
     (if startswith (c # cs) ''url(''
      then (case url_group (drop 4 (c # cs)) of
              Some (t, r) \<Rightarrow> t # findall_url r
            | None \<Rightarrow> findall_url cs)
      else findall_url cs)"
  by pat_completeness auto
termination
proof (relation "measure length")
  fix c cs x2 x y
  assume "url_group (drop 4 (c # cs)) = Some x2" and "(x, y) = x2"
  then have "length y < length (drop 4 (c # cs))"
    using url_group_shorter [of "drop 4 (c # cs)" x y] by simp
  then show "(y, c # cs) \<in> measure length" by simp
qed auto

subsection \<open>The file system and the other collaborators\<close>

text \<open>
  The exceptions the modelled calls raise. \<open>IOError\<close> and \<open>OSError\<close> carry the path of the
  failing call.
\<close>

datatype error =
    IOError string
  | OSError string
  | UnicodeDecodeError
  | ShutilError
  | CycleError

text \<open>
  The file system is a flat name space: a path, compared as a string, names a regular
  file with its content, a symbolic link with its target, or a directory. Every call that
  changes it is recorded in a trace, which the recipe itself does not read.

  What the model leaves out: paths are not normalised (no \<^verbatim>\<open>.\<close>, \<^verbatim>\<open>..\<close>, repeated or
  trailing slashes), a file can be created whether or not its parent directory exists
  (so \<^verbatim>\<open>makedirs\<close> records the directory itself only), there are no hard links,
  permissions or full disks, and a write reaches its file at once (the buffer of a Python
  file object is not modelled). The properties below are stated for inputs on which
  these differences do not show: resources outside the output directory.
\<close>

datatype entry = File string | Link string | Dir

datatype event =
    Makedirs string
  | CopyFile string string
  | OpenW string
  | Write string string
  | Unlink string
  | Symlink string string

record world =
  files :: "string \<rightharpoonup> entry"
  trace :: "event list"

text \<open>
  Opening a path follows symbolic links, a relative target being read from the directory
  of the link; after \<open>k\<close> links the call fails, as the kernel's does after 40.
\<close>

fun follow :: "nat \<Rightarrow> (string \<rightharpoonup> entry) \<Rightarrow> string \<Rightarrow> string option" where
  "follow 0 fs p = (case fs p of Some (Link t) \<Rightarrow> None | _ \<Rightarrow> Some p)"
| "follow (Suc k) fs p =
     (case fs p of
        Some (Link t) \<Rightarrow> follow k fs (path_join (dirname p) t)
      | _ \<Rightarrow> Some p)"

definition os_path_lexists :: "world \<Rightarrow> string \<Rightarrow> bool" where
  "os_path_lexists w p = (files w p \<noteq> None)"

definition os_path_exists :: "world \<Rightarrow> string \<Rightarrow> bool" where
  "os_path_exists w p =
     (case follow 40 (files w) p of None \<Rightarrow> False | Some q \<Rightarrow> files w q \<noteq> None)"

text \<open>\<^verbatim>\<open>open(p).read()\<close>\<close>

definition read_file :: "world \<Rightarrow> string \<Rightarrow> error + string" where
  "read_file w p =
     (case follow 40 (files w) p of
        None \<Rightarrow> Inl (IOError p)
      | Some q \<Rightarrow> (case files w q of Some (File c) \<Rightarrow> Inr c | _ \<Rightarrow> Inl (IOError p)))"

text \<open>
  \<^verbatim>\<open>open(p, 'w')\<close>: the file is created or truncated. The handle returned is the path the
  name resolved to.
\<close>

definition open_w :: "string \<Rightarrow> world \<Rightarrow> error + (string \<times> world)" where
  "open_w p w =
     (case follow 40 (files w) p of
        None \<Rightarrow> Inl (IOError p)
      | Some q \<Rightarrow>
          (case files w q of
             Some Dir \<Rightarrow> Inl (IOError p)
           | _ \<Rightarrow> Inr (q, w\<lparr>files := (files w)(q \<mapsto> File []), trace := trace w @ [OpenW q]\<rparr>)))"

text \<open>
  \<^verbatim>\<open>handle.write(s)\<close>: the bytes are appended to the file of the handle; once the name of
  the handle has been unlinked the bytes reach no named file.
\<close>

definition file_write :: "string \<Rightarrow> string \<Rightarrow> world \<Rightarrow> world" where
  "file_write h s w =
     w\<lparr>files := (case files w h of
                  Some (File c) \<Rightarrow> (files w)(h \<mapsto> File (c @ s))
                | _ \<Rightarrow> files w),
       trace := trace w @ [Write h s]\<rparr>"

definition os_unlink :: "string \<Rightarrow> world \<Rightarrow> error + world" where
  "os_unlink p w =
     (case files w p of
        None \<Rightarrow> Inl (OSError p)
      | Some Dir \<Rightarrow> Inl (OSError p)
      | Some _ \<Rightarrow> Inr (w\<lparr>files := (files w)(p := None), trace := trace w @ [Unlink p]\<rparr>))"

definition os_symlink :: "string \<Rightarrow> string \<Rightarrow> world \<Rightarrow> error + world" where
  "os_symlink src dst w =
     (if files w dst \<noteq> None then Inl (OSError dst)
      else Inr (w\<lparr>files := (files w)(dst \<mapsto> Link src), trace := trace w @ [Symlink src dst]\<rparr>))"

definition os_makedirs :: "string \<Rightarrow> world \<Rightarrow> error + world" where
  "os_makedirs p w =
     (if files w p \<noteq> None then Inl (OSError p)
      else Inr (w\<lparr>files := (files w)(p \<mapsto> Dir), trace := trace w @ [Makedirs p]\<rparr>))"

text \<open>
  \<^verbatim>\<open>shutil.copyfile(src, dst)\<close>: refuses to copy a file onto itself, reads the source
  and writes the destination, following links on both sides.
\<close>

definition samefile :: "world \<Rightarrow> string \<Rightarrow> string \<Rightarrow> bool" where
  "samefile w src dst =
     (case (follow 40 (files w) src, follow 40 (files w) dst) of
        (Some a, Some b) \<Rightarrow> files w a \<noteq> None \<and> files w b \<noteq> None \<and> a = b
      | _ \<Rightarrow> False)"

definition shutil_copyfile :: "string \<Rightarrow> string \<Rightarrow> world \<Rightarrow> error + world" where
  "shutil_copyfile src dst w =
     (if samefile w src dst then Inl ShutilError
      else
        (case read_file w src of
           Inl e \<Rightarrow> Inl e
         | Inr c \<Rightarrow>
             (case follow 40 (files w) dst of
                None \<Rightarrow> Inl (IOError dst)
              | Some q \<Rightarrow>
                  (case files w q of
                     Some Dir \<Rightarrow> Inl (IOError dst)
                   | _ \<Rightarrow> Inr (w\<lparr>files := (files w)(q \<mapsto> File c),
                                  trace := trace w @ [CopyFile src dst]\<rparr>)))))"

text \<open>
  \<^verbatim>\<open>s.encode('utf-8')\<close> on a Python 2 byte string decodes it as ASCII first and raises on
  a byte above 127.
\<close>

definition encode_utf8 :: "string \<Rightarrow> error + string" where
  "encode_utf8 s =
     (if list_all (\<lambda>c. (of_char c :: nat) < 128) s then Inr s else Inl UnicodeDecodeError)"

text \<open>
  The libraries the recipe calls are parameters: the two minifiers, the digest of the
  bytes fed to an \<^verbatim>\<open>md5\<close> object, \<^verbatim>\<open>json.dumps\<close> with the recipe's arguments, and the
  registry's \<^verbatim>\<open>get_filename\<close>.
\<close>

record manifest =
  manifest_name :: string
  manifest_main :: "string list"
  manifest_version :: string

record externals =
  jsmin :: "string \<Rightarrow> string"
  cssmin :: "string \<Rightarrow> string"
  md5_hexdigest :: "string \<Rightarrow> string"
  json_dumps :: "manifest \<Rightarrow> string"
  get_filename :: "string \<Rightarrow> string \<Rightarrow> string \<Rightarrow> string \<Rightarrow> string"

subsection \<open>The module's constants and the recipe object\<close>

definition BUNDLE_DIR_NAME :: string where
  "BUNDLE_DIR_NAME = ''bowerstatic_bundle''"

definition MINIFIERS :: "externals \<Rightarrow> (string \<times> (string \<Rightarrow> string)) list" where
  "MINIFIERS x = [(''.js'', jsmin x), (''.css'', cssmin x)]"

definition BUNDLE_EXTENSIONS :: "string list" where
  "BUNDLE_EXTENSIONS = [''.js'', ''.css'']"

definition RESOURCE_EXTENSIONS :: "string list" where
  "RESOURCE_EXTENSIONS = [''.pt'', ''.ico'', ''.gif'', ''.png'', ''.jpg'']"

record recipe =
  target_dir_option :: string
  current_component_name :: string

text \<open>The property \<^verbatim>\<open>Recipe.target_dir\<close>.\<close>

definition target_dir :: "recipe \<Rightarrow> string" where
  "target_dir self = path_join (target_dir_option self) (current_component_name self)"

subsection \<open>The registry's data\<close>

text \<open>
  A component and a resource as the registry declares them, the resolved resource the
  recipe works with (the dictionary with the keys \<^verbatim>\<open>package\<close> and \<^verbatim>\<open>path\<close>), and the
  environment the includer has filled: the inclusions (absent when nothing was included),
  the resource each inclusion wraps and the inclusions it depends on. Inclusions are
  nodes of any type \<open>'n\<close>; a node that \<open>dependencies\<close> does not list depends on nothing.
\<close>

record component =
  component_name :: string
  component_version :: string
  collection_name :: string

record resource =
  ext :: string
  file_path :: string
  component_of :: component

record resolved_resource =
  package :: string
  path :: string

record 'n environ =
  inclusions :: "'n list option"
  resource_of :: "'n \<Rightarrow> resource"
  dependencies :: "('n \<times> 'n list) list"

type_synonym resources_by_type = "(string \<times> resolved_resource list) list"

subsection \<open>Topological order of the inclusions\<close>

text \<open>
  Modelled from the spec: \<^verbatim>\<open>bowerstatic.toposort.topological_sort\<close>, which the recipe
  imports and calls, is not among the repository's sources. The spec (4.1, 9) asks for
  a sequence with every given node and every node reachable from one exactly once, each
  after all the nodes it depends on, \<open>CycleError\<close> on a cyclic dependency relation, and
  an order fixed by the order of the input; it names depth-first search with cycle
  detection. \<open>visit\<close> carries the nodes under visit (\<open>st\<close>) and the sequence built so
  far.
\<close>

function visit :: "('n \<times> 'n list) list \<Rightarrow> 'n list \<Rightarrow> 'n \<Rightarrow> 'n list \<Rightarrow> error + 'n list"
  and visit_all :: "('n \<times> 'n list) list \<Rightarrow> 'n list \<Rightarrow> 'n list \<Rightarrow> 'n list \<Rightarrow> error + 'n list"
  where
  "visit g st n acc =
     (if n \<in> set acc then Inr acc
      else if n \<in> set st then Inl CycleError
      else (case map_of g n of
              None \<Rightarrow> Inr (acc @ [n])
            | Some ds \<Rightarrow>
                (case visit_all g (n # st) ds acc of
                   Inl e \<Rightarrow> Inl e
                 | Inr acc' \<Rightarrow> Inr (acc' @ [n]))))"
| "visit_all g st [] acc = Inr acc"
| "visit_all g st (m # ms) acc =
     (case visit g st m acc of
        Inl e \<Rightarrow> Inl e
      | Inr acc' \<Rightarrow> visit_all g st ms acc')"
  by pat_completeness auto
termination
proof (relation "inv_image (less_than <*lex*> less_than)
    (\<lambda>a. case a of
       Inl (g, st, n, acc) \<Rightarrow> (card (fst ` set g - set st), 0)
     | Inr (g, st, ms, acc) \<Rightarrow> (card (fst ` set g - set st), Suc (length ms)))")
  fix g :: "('n \<times> 'n list) list" and st n acc ds
  assume "n \<notin> set st" and "map_of g n = Some ds"
  then have "n \<in> fst ` set g - set st"
    by (auto dest: map_of_SomeD intro: rev_image_eqI)
  then have "card (fst ` set g - set (n # st)) < card (fst ` set g - set st)"
    by (intro psubset_card_mono) auto
  then show "(Inr (g, n # st, ds, acc), Inl (g, st, n, acc))
      \<in> inv_image (less_than <*lex*> less_than)
          (\<lambda>a. case a of
             Inl (g, st, n, acc) \<Rightarrow> (card (fst ` set g - set st), 0)
           | Inr (g, st, ms, acc) \<Rightarrow> (card (fst ` set g - set st), Suc (length ms)))"
    by simp
qed auto

definition topological_sort :: "'n list \<Rightarrow> ('n \<times> 'n list) list \<Rightarrow> error + 'n list" where
  "topological_sort l g = visit_all g [] l []"

subsection \<open>\<^verbatim>\<open>Recipe.get_resources_by_type\<close>\<close>

text \<open>
  \<^verbatim>\<open>d.setdefault(k, []).append(v)\<close> on a dictionary kept as an association list in the
  order the keys were first set; \<^verbatim>\<open>d.items()\<close> is the list itself. A Python 2 dictionary
  yields its items in an order fixed by its hash table, which is some order of the same
  items: the properties below are stated for the order of the list, whatever it is.
\<close>

fun setdefault_append :: "string \<Rightarrow> 'a \<Rightarrow> (string \<times> 'a list) list \<Rightarrow> (string \<times> 'a list) list" where
  "setdefault_append k v [] = [(k, [v])]"
| "setdefault_append k v ((k', vs) # d) =
     (if k' = k then (k', vs @ [v]) # d else (k', vs) # setdefault_append k v d)"

fun classify :: "externals \<Rightarrow> 'n environ \<Rightarrow> 'n list \<Rightarrow> resources_by_type \<Rightarrow> resources_by_type" where
  "classify x environ [] d = d"
| "classify x environ (inclusion # rest) d =
     (let res = resource_of environ inclusion;
          comp = component_of res;
          p = get_filename x (collection_name comp) (component_name comp)
                (component_version comp) (file_path res)
      in classify x environ rest
           (setdefault_append (ext res) \<lparr>package = component_name comp, path = p\<rparr> d))"

definition get_resources_by_type :: "externals \<Rightarrow> 'n environ \<Rightarrow> error + resources_by_type" where
  "get_resources_by_type x environ =
     (case inclusions environ of
        None \<Rightarrow> Inr []
      | Some incs \<Rightarrow>
          (case topological_sort incs (dependencies environ) of
             Inl e \<Rightarrow> Inl e
           | Inr ordered \<Rightarrow> Inr (classify x environ ordered [])))"

subsection \<open>\<^verbatim>\<open>Recipe.copy_linked_resources\<close>\<close>

text \<open>The loop over the tokens found, with the content and the file system as its state.\<close>

fun link_resources :: "recipe \<Rightarrow> string \<Rightarrow> string list \<Rightarrow> string \<times> world \<Rightarrow> error + (string \<times> world)" where
  "link_resources self p [] (content, w) = Inr (content, w)"
| "link_resources self p (tok # toks) (content, w) =
     (let filename = sanitize_filename tok
      in case encode_utf8 (path_join (target_dir self) (basename filename)) of
           Inl e \<Rightarrow> Inl e
         | Inr target \<Rightarrow>
             (case (if os_path_lexists w target then os_unlink target w else Inr w) of
                Inl e \<Rightarrow> Inl e
              | Inr w1 \<Rightarrow>
                  (case os_symlink (path_join (dirname p) filename) target w1 of
                     Inl e \<Rightarrow> Inl e
                   | Inr w2 \<Rightarrow>
                       link_resources self p toks
                         (replace_1 content filename (basename target), w2))))"

definition copy_linked_resources :: "recipe \<Rightarrow> string \<Rightarrow> string \<Rightarrow> world \<Rightarrow> error + (string \<times> world)" where
  "copy_linked_resources self content p w =
     link_resources self p (findall_url content) (content, w)"

subsection \<open>\<^verbatim>\<open>Recipe.create_bundles_by_type\<close>\<close>

text \<open>
  An \<^verbatim>\<open>md5\<close> object is the sequence of bytes it has been fed: \<^verbatim>\<open>md5.new()\<close> is the empty
  one, \<^verbatim>\<open>update\<close> appends, and \<^verbatim>\<open>hexdigest\<close> is the digest of the whole sequence.
  \<open>bundle_resources\<close> is the loop over the resources of one extension, writing to the
  open bundle \<open>h\<close>; \<open>bundle_items\<close> is the loop over the items of the dictionary.
\<close>

fun bundle_resources ::
  "externals \<Rightarrow> recipe \<Rightarrow> string \<Rightarrow> string \<Rightarrow> resolved_resource list \<Rightarrow> string \<times> world
     \<Rightarrow> error + (string \<times> world)" where
  "bundle_resources x self e h [] (m, w) = Inr (m, w)"
| "bundle_resources x self e h (r # rs) (m, w) =
     (case read_file w (path r) of
        Inl err \<Rightarrow> Inl err
      | Inr content \<Rightarrow>
          (case (if e = ''.css'' then copy_linked_resources self content (path r) w
                 else Inr (content, w)) of
             Inl err \<Rightarrow> Inl err
           | Inr (content1, w1) \<Rightarrow>
               (let content2 = (case map_of (MINIFIERS x) e of
                                  Some minify \<Rightarrow> minify content1
                                | None \<Rightarrow> content1)
                in bundle_resources x self e h rs
                     (m @ content2, file_write h [CHR 0x0A] (file_write h content2 w1)))))"

fun bundle_items ::
  "externals \<Rightarrow> recipe \<Rightarrow> resources_by_type \<Rightarrow> string \<times> string list \<times> world
     \<Rightarrow> error + (string \<times> string list \<times> world)" where
  "bundle_items x self [] (m, bundle_names, w) = Inr (m, bundle_names, w)"
| "bundle_items x self ((e, resources) # rest) (m, bundle_names, w) =
     (if e \<notin> set BUNDLE_EXTENSIONS then bundle_items x self rest (m, bundle_names, w)
      else
        (let bundle_name = ''bundle'' @ e
         in case open_w (path_join (target_dir self) bundle_name) w of
              Inl err \<Rightarrow> Inl err
            | Inr (h, w1) \<Rightarrow>
                (case bundle_resources x self e h resources (m, w1) of
                   Inl err \<Rightarrow> Inl err
                 | Inr (m', w2) \<Rightarrow>
                     bundle_items x self rest (m', bundle_names @ [bundle_name], w2))))"

definition create_bundles_by_type ::
  "externals \<Rightarrow> recipe \<Rightarrow> resources_by_type \<Rightarrow> world \<Rightarrow> error + ((string \<times> string list) \<times> world)" where
  "create_bundles_by_type x self resources_by_type w =
     (case bundle_items x self resources_by_type ([], [], w) of
        Inl err \<Rightarrow> Inl err
      | Inr (m, bundle_names, w') \<Rightarrow> Inr ((md5_hexdigest x m, bundle_names), w'))"

subsection \<open>\<^verbatim>\<open>Recipe.copy_resources_by_type\<close>\<close>

fun copy_resources ::
  "recipe \<Rightarrow> resolved_resource list \<Rightarrow> string list \<times> world \<Rightarrow> error + (string list \<times> world)" where
  "copy_resources self [] (copied, w) = Inr (copied, w)"
| "copy_resources self (r # rs) (copied, w) =
     (let tdir = path_join (target_dir self) (package r)
      in case (if \<not> os_path_exists w tdir then os_makedirs tdir w else Inr w) of
           Inl err \<Rightarrow> Inl err
         | Inr w1 \<Rightarrow>
             (let filename = basename (path r);
                  destination = path_join tdir filename
              in case shutil_copyfile (path r) destination w1 of
                   Inl err \<Rightarrow> Inl err
                 | Inr w2 \<Rightarrow>
                     copy_resources self rs (copied @ [path_join (package r) filename], w2)))"

fun copy_items ::
  "recipe \<Rightarrow> resources_by_type \<Rightarrow> string list \<times> world \<Rightarrow> error + (string list \<times> world)" where
  "copy_items self [] (copied, w) = Inr (copied, w)"
| "copy_items self ((e, resources) # rest) (copied, w) =
     (if e \<notin> set RESOURCE_EXTENSIONS then copy_items self rest (copied, w)
      else
        (case copy_resources self resources (copied, w) of
           Inl err \<Rightarrow> Inl err
         | Inr s \<Rightarrow> copy_items self rest s))"

definition copy_resources_by_type ::
  "recipe \<Rightarrow> resources_by_type \<Rightarrow> world \<Rightarrow> error + (string list \<times> world)" where
  "copy_resources_by_type self resources_by_type w = copy_items self resources_by_type ([], w)"

subsection \<open>The build of one component in \<^verbatim>\<open>Recipe.update\<close>\<close>

definition assure_target_dir :: "recipe \<Rightarrow> world \<Rightarrow> error + world" where
  "assure_target_dir self w =
     (if \<not> os_path_exists w (target_dir self) then os_makedirs (target_dir self) w
      else Inr w)"

definition write_bower_json :: "externals \<Rightarrow> recipe \<Rightarrow> manifest \<Rightarrow> world \<Rightarrow> error + world" where
  "write_bower_json x self d w =
     (case open_w (path_join (target_dir self) ''.bower.json'') w of
        Inl err \<Rightarrow> Inl err
      | Inr (h, w1) \<Rightarrow> Inr (file_write h (json_dumps x d) w1))"

text \<open>
  The body of the loop over the local components, lines 89 to 105; \<open>environ\<close> is what the
  includer has left for the component.
\<close>

definition update_component ::
  "externals \<Rightarrow> recipe \<Rightarrow> string \<Rightarrow> 'n environ \<Rightarrow> world \<Rightarrow> error + (recipe \<times> world)" where
  "update_component x self0 name environ w =
     (let self = self0\<lparr>current_component_name :=
                   BUNDLE_DIR_NAME @ ''_'' @ replace_char (CHR ''.'') (CHR ''_'') name\<rparr>
      in case assure_target_dir self w of
           Inl err \<Rightarrow> Inl err
         | Inr w1 \<Rightarrow>
             (case get_resources_by_type x environ of
                Inl err \<Rightarrow> Inl err
              | Inr resources_by_type \<Rightarrow>
                  (case copy_resources_by_type self resources_by_type w1 of
                     Inl err \<Rightarrow> Inl err
                   | Inr (resources, w2) \<Rightarrow>
                       (case create_bundles_by_type x self resources_by_type w2 of
                          Inl err \<Rightarrow> Inl err
                        | Inr ((version, bundles), w3) \<Rightarrow>
                            (case write_bower_json x self
                                    \<lparr>manifest_name = current_component_name self,
                                     manifest_main = resources @ bundles,
                                     manifest_version = version\<rparr> w3 of
                               Inl err \<Rightarrow> Inl err
                             | Inr w4 \<Rightarrow> Inr (self, w4))))))"

text \<open>
  The loop over the local components: the first error ends the run. The steps of
  \<^verbatim>\<open>update\<close> before the loop (the environment variables, the installation of the eggs, the
  imports) and the enumeration of the local collections belong to the collaborators; the
  list given here is what they yield, each component with the environment its includer
  has filled.
\<close>

fun update ::
  "externals \<Rightarrow> (string \<times> 'n environ) list \<Rightarrow> recipe \<times> world \<Rightarrow> error + (recipe \<times> world)" where
  "update x [] (self, w) = Inr (self, w)"
| "update x ((name, environ) # rest) (self, w) =
     (case update_component x self name environ w of
        Inl err \<Rightarrow> Inl err
      | Inr s \<Rightarrow> update x rest s)"

subsection \<open>What the rewriter computes, without the file system\<close>

text \<open>
  The name under which a token's file is staged, the replacement one token makes in the
  content, and the replacements of all the tokens of a stylesheet in the order found.
  They restate \<open>link_resources\<close> without its effects and serve to state its result.
\<close>

definition staged_target :: "recipe \<Rightarrow> string \<Rightarrow> string" where
  "staged_target self tok = path_join (target_dir self) (basename (sanitize_filename tok))"

definition rewrite_step :: "string \<Rightarrow> string \<Rightarrow> string" where
  "rewrite_step content tok =
     replace_1 content (sanitize_filename tok) (basename (sanitize_filename tok))"

definition rewrite_content :: "string \<Rightarrow> string" where
  "rewrite_content content = foldl rewrite_step content (findall_url content)"

text \<open>Staging one file: an entry at the target is unlinked, then the link is made.\<close>

definition stage :: "string \<Rightarrow> string \<Rightarrow> world \<Rightarrow> world" where
  "stage src target w =
     w\<lparr>files := (files w)(target \<mapsto> Link src),
       trace := trace w @ (if files w target = None then [] else [Unlink target])
                  @ [Symlink src target]\<rparr>"

text \<open>\<^verbatim>\<open>s.find(old)\<close>: where the leftmost occurrence of \<open>old\<close> starts. It serves to state
  which occurrence \<^verbatim>\<open>replace\<close> rewrites.\<close>

fun str_find :: "string \<Rightarrow> string \<Rightarrow> nat option" where
  "str_find [] old = (if old = [] then Some 0 else None)"
| "str_find (c # cs) old =
     (if startswith (c # cs) old then Some 0 else map_option Suc (str_find cs old))"

subsection \<open>Example inputs\<close>

text \<open>
  A recipe whose output directory is \<^verbatim>\<open>/out/bowerstatic_bundle_widget\<close>, a stylesheet
  with one quoted reference that carries a query string, and a stylesheet whose
  comment names the file its reference names.
\<close>

definition widget_recipe :: recipe where
  "widget_recipe =
     \<lparr>target_dir_option = ''/out'', current_component_name = ''bowerstatic_bundle_widget''\<rparr>"

definition logo_css :: string where
  "logo_css = ''a{b:url('' @ [CHR 0x22] @ ''icons/logo.png?v=2'' @ [CHR 0x22] @ '')}''"

definition comment_css :: string where
  "comment_css = ''/* icons/logo.png */ a{b:url(icons/logo.png)}''"

definition css_world :: world where
  "css_world =
     \<lparr>files = [''/out/bowerstatic_bundle_widget'' \<mapsto> Dir,
               ''/src/widget/logo.css'' \<mapsto> File logo_css,
               ''/src/widget/comment.css'' \<mapsto> File comment_css,
               ''/src/widget/icons/logo.png'' \<mapsto> File ''PNG''],
      trace = []\<rparr>"

subsection \<open>Notions used to state the properties of the bundle builder\<close>

text \<open>
  Reading the file system: whether a path names a regular file or a symbolic link, and
  the content of a regular file.
\<close>

definition is_file :: "world \<Rightarrow> string \<Rightarrow> bool" where
  "is_file w p = (case files w p of Some (File c) \<Rightarrow> True | _ \<Rightarrow> False)"

definition is_link :: "world \<Rightarrow> string \<Rightarrow> bool" where
  "is_link w p = (case files w p of Some (Link t) \<Rightarrow> True | _ \<Rightarrow> False)"

definition file_content :: "world \<Rightarrow> string \<Rightarrow> string" where
  "file_content w p = (case files w p of Some (File c) \<Rightarrow> c | _ \<Rightarrow> [])"

text \<open>
  The path of the bundle of an extension, the tokens the rewriter finds in a resource of
  an extension, and what a resource with content \<open>c\<close> contributes to its bundle: the
  content, rewritten if it is a stylesheet, then minified if a minifier is registered.
\<close>

definition bundle_path :: "recipe \<Rightarrow> string \<Rightarrow> string" where
  "bundle_path self e = path_join (target_dir self) (''bundle'' @ e)"

definition tokens_of :: "string \<Rightarrow> string \<Rightarrow> string list" where
  "tokens_of e c = (if e = ''.css'' then findall_url c else [])"

definition transform :: "externals \<Rightarrow> string \<Rightarrow> string \<Rightarrow> string" where
  "transform x e c =
     (let c1 = (if e = ''.css'' then rewrite_content c else c)
      in case map_of (MINIFIERS x) e of Some minify \<Rightarrow> minify c1 | None \<Rightarrow> c1)"

text \<open>
  The inputs of the bundle builder are separate from its outputs when the dictionary has
  each extension once and, for the extensions that are bundled, no resource lies in the
  output directory or is a symbolic link, no stylesheet refers to a file named like a
  bundle, and no bundle path is a symbolic link. They are readable when the resources
  of these extensions are regular files.
\<close>

definition separate_resource :: "recipe \<Rightarrow> world \<Rightarrow> string \<Rightarrow> resolved_resource \<Rightarrow> bool" where
  "separate_resource self w e r =
     (\<not> startswith (path r) (target_dir self) \<and> \<not> is_link w (path r)
      \<and> list_all (\<lambda>tok. staged_target self tok \<notin> set (map (bundle_path self) BUNDLE_EXTENSIONS))
            (tokens_of e (file_content w (path r))))"

definition separate_inputs :: "recipe \<Rightarrow> world \<Rightarrow> resources_by_type \<Rightarrow> bool" where
  "separate_inputs self w d =
     (distinct (map fst d)
      \<and> list_all (\<lambda>(e, rs). e \<in> set BUNDLE_EXTENSIONS \<longrightarrow> list_all (separate_resource self w e) rs) d
      \<and> list_all (\<lambda>e. \<not> is_link w (bundle_path self e)) BUNDLE_EXTENSIONS)"

definition readable_inputs :: "world \<Rightarrow> resources_by_type \<Rightarrow> bool" where
  "readable_inputs w d =
     list_all (\<lambda>(e, rs). e \<in> set BUNDLE_EXTENSIONS \<longrightarrow> list_all (\<lambda>r. is_file w (path r)) rs) d"

text \<open>
  What the bundle of an extension holds, what the digest is fed, and the bundle names
  recorded, as functions of the dictionary and of the files read.
\<close>

definition bundle_text :: "externals \<Rightarrow> world \<Rightarrow> string \<Rightarrow> resolved_resource list \<Rightarrow> string" where
  "bundle_text x w e rs =
     concat (map (\<lambda>r. transform x e (file_content w (path r)) @ [CHR 0x0A]) rs)"

definition digest_text :: "externals \<Rightarrow> world \<Rightarrow> string \<Rightarrow> resolved_resource list \<Rightarrow> string" where
  "digest_text x w e rs = concat (map (\<lambda>r. transform x e (file_content w (path r))) rs)"

definition bundled :: "resources_by_type \<Rightarrow> resources_by_type" where
  "bundled d = filter (\<lambda>(e, rs). e \<in> set BUNDLE_EXTENSIONS) d"

definition digest_input :: "externals \<Rightarrow> world \<Rightarrow> resources_by_type \<Rightarrow> string" where
  "digest_input x w d = concat (map (\<lambda>(e, rs). digest_text x w e rs) (bundled d))"

definition bundle_names_of :: "resources_by_type \<Rightarrow> string list" where
  "bundle_names_of d = map (\<lambda>(e, rs). ''bundle'' @ e) (bundled d)"

text \<open>
  What the resources of one extension contribute, in their order, and the resources the
  dictionary holds for an extension (\<^verbatim>\<open>d.get(e, [])\<close>).
\<close>

definition contributions :: "externals \<Rightarrow> world \<Rightarrow> string \<Rightarrow> resolved_resource list \<Rightarrow> string list" where
  "contributions x w e rs = map (\<lambda>r. transform x e (file_content w (path r))) rs"

definition resources_of :: "resources_by_type \<Rightarrow> string \<Rightarrow> resolved_resource list" where
  "resources_of d e = (case map_of d e of Some rs \<Rightarrow> rs | None \<Rightarrow> [])"

text \<open>
  Stand-ins for the libraries in the examples: minifiers that drop the spaces, a digest
  that returns the bytes it was fed, so that a version shows what was hashed, a
  rendering of the manifest, and a registry that keeps each component in a directory of
  its name under \<^verbatim>\<open>/src\<close>.
\<close>

definition toy_externals :: externals where
  "toy_externals =
     \<lparr>jsmin = filter (\<lambda>c. c \<noteq> CHR '' ''),
      cssmin = filter (\<lambda>c. c \<noteq> CHR '' ''),
      md5_hexdigest = (\<lambda>s. s),
      json_dumps = (\<lambda>d. manifest_name d @ ''|'' @ concat (map (\<lambda>s. s @ '','') (manifest_main d))
                          @ ''|'' @ manifest_version d),
      get_filename = (\<lambda>collection comp version file. ''/src/'' @ comp @ ''/'' @ file)\<rparr>"

text \<open>
  The widget scenario of the spec: \<^verbatim>\<open>jquery.js\<close> and \<^verbatim>\<open>widget.js\<close>, which depends on it.
\<close>

definition widget_world :: world where
  "widget_world =
     \<lparr>files = [''/out/bowerstatic_bundle_widget'' \<mapsto> Dir,
               ''/src/jquery/jquery.js'' \<mapsto> File ''var j;'',
               ''/src/widget/widget.js'' \<mapsto> File ''var w;''],
      trace = []\<rparr>"

definition widget_resources :: resources_by_type where
  "widget_resources =
     [(''.js'', [\<lparr>package = ''jquery'', path = ''/src/jquery/jquery.js''\<rparr>,
                \<lparr>package = ''widget'', path = ''/src/widget/widget.js''\<rparr>])]"


text \<open>The resolved resource the classifier makes of an inclusion.\<close>

definition resolve :: "externals \<Rightarrow> 'n environ \<Rightarrow> 'n \<Rightarrow> resolved_resource" where
  "resolve x environ n =
     (let res = resource_of environ n; comp = component_of res
      in \<lparr>package = component_name comp,
          path = get_filename x (collection_name comp) (component_name comp)
                   (component_version comp) (file_path res)\<rparr>)"

text \<open>
  The environment of the widget scenario: inclusion 2 is \<^verbatim>\<open>widget.js\<close>, included first,
  and depends on inclusion 1, \<^verbatim>\<open>jquery.js\<close>.
\<close>

definition widget_environ :: "nat environ" where
  "widget_environ =
     \<lparr>inclusions = Some [2, 1],
      resource_of = (\<lambda>n. if n = 1
         then \<lparr>ext = ''.js'', file_path = ''jquery.js'',
               component_of = \<lparr>component_name = ''jquery'', component_version = ''1.0'',
                                collection_name = ''components''\<rparr>\<rparr>
         else \<lparr>ext = ''.js'', file_path = ''widget.js'',
               component_of = \<lparr>component_name = ''widget'', component_version = ''1.0'',
                                collection_name = ''components''\<rparr>\<rparr>),
      dependencies = [(2, [1])]\<rparr>"

subsection \<open>Notions used to state the order of a build\<close>

text \<open>
  The events of the copier (a directory made, a file copied) and those of the bundle
  builder (a bundle opened or written to, a name unlinked, a link made).
\<close>

fun is_copy_event :: "event \<Rightarrow> bool" where
  "is_copy_event (Makedirs p) = True"
| "is_copy_event (CopyFile src dst) = True"
| "is_copy_event _ = False"

fun is_bundle_event :: "event \<Rightarrow> bool" where
  "is_bundle_event (OpenW p) = True"
| "is_bundle_event (Write p s) = True"
| "is_bundle_event (Unlink p) = True"
| "is_bundle_event (Symlink src dst) = True"
| "is_bundle_event _ = False"

text \<open>
  A component with a script and an image: inclusion 1 is \<^verbatim>\<open>gallery.js\<close>, inclusion 2 is
  \<^verbatim>\<open>logo.png\<close>.
\<close>

definition gallery_environ :: "nat environ" where
  "gallery_environ =
     \<lparr>inclusions = Some [1, 2],
      resource_of = (\<lambda>n. \<lparr>ext = (if n = 1 then ''.js'' else ''.png''),
                           file_path = (if n = 1 then ''gallery.js'' else ''logo.png''),
                           component_of = \<lparr>component_name = ''gallery'',
                             component_version = ''1.0'', collection_name = ''components''\<rparr>\<rparr>),
      dependencies = []\<rparr>"

definition gallery_world :: world where
  "gallery_world =
     \<lparr>files = [''/src/gallery/gallery.js'' \<mapsto> File ''var g;'',
               ''/src/gallery/logo.png'' \<mapsto> File ''PNG''],
      trace = []\<rparr>"

definition start_recipe :: recipe where
  "start_recipe = \<lparr>target_dir_option = ''/out'', current_component_name = ''''\<rparr>"

text \<open>A component for which nothing has been included, and a file system with no entry.\<close>

definition bare_environ :: "nat environ" where
  "bare_environ =
     \<lparr>inclusions = None,
      resource_of = (\<lambda>n. \<lparr>ext = [], file_path = [],
                           component_of = \<lparr>component_name = [], component_version = [],
                                            collection_name = []\<rparr>\<rparr>),
      dependencies = []\<rparr>"

definition bare_world :: world where
  "bare_world = \<lparr>files = Map.empty, trace = []\<rparr>"

text \<open>The widget scenario with \<^verbatim>\<open>widget.js\<close> missing, before the output directory exists
  and once it has been made.\<close>

definition broken_world :: world where
  "broken_world =
     \<lparr>files = [''/src/jquery/jquery.js'' \<mapsto> File ''var j;''], trace = []\<rparr>"

definition broken_world_ensured :: world where
  "broken_world_ensured =
     \<lparr>files = [''/src/jquery/jquery.js'' \<mapsto> File ''var j;'',
               ''/out/bowerstatic_bundle_widget'' \<mapsto> Dir],
      trace = [Makedirs ''/out/bowerstatic_bundle_widget'']\<rparr>"

subsection \<open>Notions used to state the properties of the topological order\<close>

text \<open>
  The dependency relation of a graph (\<open>n\<close> depends on \<open>m\<close>), and a sequence in
  topological order: no node twice, each after all the nodes it depends on.
\<close>

definition depends :: "('n \<times> 'n list) list \<Rightarrow> ('n \<times> 'n) set" where
  "depends g = {(n, m). \<exists>ds. map_of g n = Some ds \<and> m \<in> set ds}"

definition topo :: "('n \<times> 'n) set \<Rightarrow> 'n list \<Rightarrow> bool" where
  "topo E ns = (distinct ns \<and> (\<forall>pre x post. ns = pre @ x # post \<longrightarrow> E `` {x} \<subseteq> set pre))"

text \<open>
  What a visit may assume (the sequence so far is in order and holds no node under
  visit, and every node under visit depends on the nodes to visit) and what it
  establishes: the sequence is extended by nodes reachable from the nodes visited, and
  holds them, or a cycle is reachable from them.
\<close>

definition visit_pre :: "('n \<times> 'n) set \<Rightarrow> 'n list \<Rightarrow> 'n list \<Rightarrow> 'n set \<Rightarrow> bool" where
  "visit_pre E st acc ns =
     (topo E acc \<and> set acc \<inter> set st = {} \<and> (\<forall>m\<in>ns. \<forall>x\<in>set st. (x, m) \<in> E\<^sup>+))"

definition visit_post ::
  "('n \<times> 'n) set \<Rightarrow> 'n list \<Rightarrow> 'n list \<Rightarrow> 'n set \<Rightarrow> error + 'n list \<Rightarrow> bool" where
  "visit_post E st acc ns r =
     (case r of
        Inr acc' \<Rightarrow>
          (\<exists>new. acc' = acc @ new \<and> set new \<subseteq> E\<^sup>* `` ns) \<and> topo E acc' \<and> ns \<subseteq> set acc'
          \<and> set acc' \<inter> set st = {}
      | Inl e \<Rightarrow> e = CycleError \<and> (\<exists>m\<in>ns. \<exists>c. (m, c) \<in> E\<^sup>* \<and> (c, c) \<in> E\<^sup>+))"




text \<open>
  Replacing the leftmost occurrence of \<open>old\<close> in \<open>s\<close>, stated with \<open>str_find\<close>: what
  \<^verbatim>\<open>s.replace(old, new, 1)\<close> is proved to do when \<open>new\<close> is the base name of \<open>old\<close>.
\<close>

definition replace_leftmost :: "string \<Rightarrow> string \<Rightarrow> string \<Rightarrow> string" where
  "replace_leftmost s old new =
     (case str_find s old of
        None \<Rightarrow> s
      | Some n \<Rightarrow> take n s @ new @ drop (n + length old) s)"

text \<open>
  A stylesheet that references one file twice, a stylesheet whose comment names twice the
  file that its two references name, and a world that holds them.
\<close>

definition twice_css :: string where
  "twice_css = ''a{b:url(i/x.png)} c{d:url(i/x.png)}''"

definition noted_css :: string where
  "noted_css = ''/* i/x.png i/x.png */ a{b:url(i/x.png)} c{d:url(i/x.png)}''"

definition twice_world :: world where
  "twice_world =
     \<lparr>files = [''/out/bowerstatic_bundle_widget'' \<mapsto> Dir,
               ''/src/widget/twice.css'' \<mapsto> File twice_css,
               ''/src/widget/noted.css'' \<mapsto> File noted_css,
               ''/src/widget/i/x.png'' \<mapsto> File ''PNG''],
      trace = []\<rparr>"

section \<open>Properties\<close>

lemma split_head_absent: "c \<notin> set s \<Longrightarrow> split_head c s = s"
  by (auto simp: split_head_def)

lemma split_head_if: "(if c \<in> set s then split_head c s else s) = split_head c s"
  by (simp add: split_head_absent)

lemma sanitize_filename_unquoted:
  "\<not> startswith t [CHR 0x22] \<Longrightarrow> \<not> startswith t [CHR 0x27] \<Longrightarrow>
   sanitize_filename t = split_head (CHR ''#'') (split_head (CHR ''?'') t)"
  by (simp add: sanitize_filename_def Let_def split_head_if)

text \<open>
  C9: a token that starts with a quote character loses its first and its last character,
  whether or not the last one is a closing quote; what is left is then cut at the first
  \<open>?\<close> and the first \<open>#\<close>. The token of an opening quote followed by \<open>foo\<close> becomes \<open>fo\<close>.
\<close>

theorem sanitize_filename_quoted:
  "sanitize_filename (CHR 0x22 # t) = split_head (CHR ''#'') (split_head (CHR ''?'') (butlast t))
   \<and> sanitize_filename (CHR 0x27 # t) = split_head (CHR ''#'') (split_head (CHR ''?'') (butlast t))
   \<and> sanitize_filename (CHR 0x22 # ''foo'') = ''fo''
   \<and> sanitize_filename (CHR 0x27 # ''foo'') = ''fo''"
  by (simp add: sanitize_filename_def startswith_def slice_1_m1_def Let_def split_head_if)
    (simp add: split_head_def)

lemma takeWhile_neq_all: "c \<notin> set xs \<Longrightarrow> takeWhile (\<lambda>x. x \<noteq> c) xs = xs"
  by (induction xs) auto

lemma takeWhile_neq_append: "c \<notin> set xs \<Longrightarrow> takeWhile (\<lambda>x. x \<noteq> c) (xs @ c # ys) = xs"
  by (induction xs) auto

lemma basename_no_slash: "CHR ''/'' \<notin> set (basename f)"
  unfolding basename_def using set_takeWhileD [of "CHR ''/''" "\<lambda>x. x \<noteq> CHR ''/''" "rev f"] by auto

lemma basename_append_slash_free:
  "CHR ''/'' \<notin> set b \<Longrightarrow> basename (a @ ''/'' @ b) = b"
  by (simp add: basename_def takeWhile_neq_append)

lemma basename_slash_free: "CHR ''/'' \<notin> set b \<Longrightarrow> basename b = b"
  by (simp add: basename_def takeWhile_neq_all)

lemma basename_dir_append:
  "CHR ''/'' \<notin> set b \<Longrightarrow> a \<noteq> [] \<Longrightarrow> last a = CHR ''/'' \<Longrightarrow> basename (a @ b) = b"
proof -
  assume b: "CHR ''/'' \<notin> set b" and a: "a \<noteq> []" "last a = CHR ''/''"
  from a obtain a' where "a = a' @ ''/''" by (metis append_butlast_last_id)
  with basename_append_slash_free [OF b, of a'] show ?thesis by simp
qed

lemma startswith_slash_free: "CHR ''/'' \<notin> set b \<Longrightarrow> \<not> startswith b ''/''"
  by (cases b) (auto simp: startswith_def)

lemma basename_path_join: "CHR ''/'' \<notin> set b \<Longrightarrow> basename (path_join a b) = b"
proof -
  assume b: "CHR ''/'' \<notin> set b"
  show ?thesis
  proof (cases "a = []")
    case True
    with b show ?thesis by (simp add: path_join_def startswith_slash_free basename_slash_free)
  next
    case False
    with b basename_append_slash_free [OF b, of a] show ?thesis
      by (simp add: path_join_def startswith_slash_free basename_dir_append)
  qed
qed

lemma replace_scan_prefix:
  assumes "old @ b \<noteq> []"
  shows "replace_scan old new (old @ b) = new @ b"
proof -
  from assms obtain c cs where eq: "old @ b = c # cs" by (cases "old @ b") auto
  have "startswith (c # cs) old"
    unfolding startswith_def using eq [symmetric] by simp
  then have "replace_scan old new (c # cs) = new @ drop (length old) (c # cs)" by simp
  also have "drop (length old) (c # cs) = b" using eq [symmetric] by simp
  finally show ?thesis using eq by simp
qed

lemma basename_staged_target:
  "basename (staged_target self tok) = basename (sanitize_filename tok)"
  by (simp add: staged_target_def basename_path_join basename_no_slash)

lemma link_resources_Cons:
  "link_resources self p (tok # toks) (c, w) =
     (if \<not> list_all (\<lambda>c. (of_char c :: nat) < 128) (staged_target self tok)
      then Inl UnicodeDecodeError
      else if files w (staged_target self tok) = Some Dir
      then Inl (OSError (staged_target self tok))
      else link_resources self p toks
             (rewrite_step c tok,
              stage (path_join (dirname p) (sanitize_filename tok)) (staged_target self tok) w))"
  using basename_staged_target [of self tok]
  by (auto simp: Let_def encode_utf8_def os_path_lexists_def os_unlink_def os_symlink_def
      staged_target_def rewrite_step_def stage_def
      split: if_splits sum.splits option.splits entry.splits)


lemma replace_scan_find:
  "str_find s old = Some n \<Longrightarrow> s \<noteq> [] \<Longrightarrow>
   replace_scan old new s = take n s @ new @ drop (n + length old) s"
proof (induction s arbitrary: n)
  case Nil
  then show ?case by simp
next
  case (Cons c cs)
  show ?case
  proof (cases "startswith (c # cs) old")
    case True
    with Cons.prems show ?thesis by simp
  next
    case False
    with Cons.prems obtain k where k: "str_find cs old = Some k" "n = Suc k" by auto
    from False k(1) have "cs \<noteq> []" by (cases cs) (auto simp: startswith_def split: if_splits)
    with Cons.IH [OF k(1)] False k(2) show ?thesis by simp
  qed
qed

lemma replace_1_find:
  assumes "str_find (a @ old @ b) old = Some (length a)" and "a @ old @ b \<noteq> []"
  shows "replace_1 (a @ old @ b) old new = a @ new @ b"
proof -
  have "replace_1 (a @ old @ b) old new = replace_scan old new (a @ old @ b)"
    using assms(2) unfolding replace_1_def by (simp only: if_False)
  also have "\<dots> = take (length a) (a @ old @ b) @ new
                    @ drop (length a + length old) (a @ old @ b)"
    using replace_scan_find [OF assms] .
  also have "\<dots> = a @ new @ b" by simp
  finally show ?thesis .
qed

declare link_resources.simps(2) [simp del]

lemma copy_linked_resources_single:
  assumes "findall_url content = [tok]"
    and "copy_linked_resources self content p w = Inr (content', w')"
  shows "content' = rewrite_step content tok"
    and "w' = stage (path_join (dirname p) (sanitize_filename tok)) (staged_target self tok) w"
  using assms by (auto simp: copy_linked_resources_def link_resources_Cons split: if_splits)


lemmas eval_strings =
  startswith_def slice_1_m1_def split_head_def replace_1_def path_join_def basename_def
  dirname_def sanitize_filename_def

lemmas eval_rewriter =
  copy_linked_resources_def link_resources_Cons staged_target_def rewrite_step_def stage_def
  target_dir_def

text \<open>
  C2, as stated, fails: for the stylesheet \<^verbatim>\<open>a{b:url("icons/logo.png?v=2")}\<close> the rewriter
  returns \<^verbatim>\<open>a{b:url("logo.png?v=2")}\<close>, in which the query string remains.
\<close>

theorem rewriter_query_string_counterexample:
  "map_sum id fst (copy_linked_resources widget_recipe logo_css ''/src/widget/logo.css'' css_world)
     = Inr (''a{b:url('' @ [CHR 0x22] @ ''logo.png?v=2'' @ [CHR 0x22] @ '')}'')
   \<and> CHR ''?'' \<in> set (''a{b:url('' @ [CHR 0x22] @ ''logo.png?v=2'' @ [CHR 0x22] @ '')}'')"
  by (simp add: eval_strings eval_rewriter widget_recipe_def logo_css_def css_world_def)

lemma link_resources_Inr:
  "link_resources self p toks (c, w) = Inr (c', w') \<Longrightarrow>
     c' = foldl rewrite_step c toks
   \<and> (\<forall>q. q \<notin> staged_target self ` set toks \<longrightarrow> files w' q = files w q)"
proof (induction toks arbitrary: c w)
  case Nil
  then show ?case by simp
next
  case (Cons tok toks)
  let ?w = "stage (path_join (dirname p) (sanitize_filename tok)) (staged_target self tok) w"
  from Cons.prems have "link_resources self p toks (rewrite_step c tok, ?w) = Inr (c', w')"
    by (simp add: link_resources_Cons split: if_splits)
  from Cons.IH [OF this] show ?case by (auto simp: stage_def)
qed

lemma copy_linked_resources_Inr:
  "copy_linked_resources self c p w = Inr (c', w') \<Longrightarrow>
     c' = rewrite_content c
   \<and> (\<forall>q. q \<notin> staged_target self ` set (findall_url c) \<longrightarrow> files w' q = files w q)"
  unfolding copy_linked_resources_def rewrite_content_def by (rule link_resources_Inr)

lemma link_resources_not_IOError: "link_resources self p toks (c, w) \<noteq> Inl (IOError q)"
  by (induction toks arbitrary: c w) (auto simp: link_resources_Cons)

lemma follow_plain: "\<not> is_link w p \<Longrightarrow> follow k (files w) p = Some p"
  by (cases k) (auto simp: is_link_def split: option.splits entry.splits)

lemma is_file_not_link: "is_file w p \<Longrightarrow> \<not> is_link w p"
  by (auto simp: is_file_def is_link_def split: option.splits entry.splits)

lemma read_file_plain: "is_file w p \<Longrightarrow> read_file w p = Inr (file_content w p)"
  using follow_plain [OF is_file_not_link, of w p 40]
  by (auto simp: read_file_def is_file_def file_content_def split: option.splits entry.splits)

lemma read_file_missing: "\<not> is_file w p \<Longrightarrow> \<not> is_link w p \<Longrightarrow> read_file w p = Inl (IOError p)"
  using follow_plain [of w p 40]
  by (auto simp: read_file_def is_file_def split: option.splits entry.splits)

lemma open_w_plain:
  "\<not> is_link w p \<Longrightarrow> files w p \<noteq> Some Dir \<Longrightarrow>
   open_w p w = Inr (p, w\<lparr>files := (files w)(p \<mapsto> File []), trace := trace w @ [OpenW p]\<rparr>)"
  using follow_plain [of w p 40]
  by (auto simp: open_w_def split: option.splits entry.splits)

lemma open_w_Dir: "files w p = Some Dir \<Longrightarrow> open_w p w = Inl (IOError p)"
  using follow_plain [of w p 40] by (simp add: open_w_def is_link_def)

lemma startswith_append: "startswith (a @ b) a"
  by (simp add: startswith_def)

lemma startswith_path_join: "\<not> startswith b ''/'' \<Longrightarrow> startswith (path_join a b) a"
  by (simp add: path_join_def startswith_def)

lemma staged_target_prefix: "startswith (staged_target self tok) (target_dir self)"
  unfolding staged_target_def
  by (rule startswith_path_join) (rule startswith_slash_free, rule basename_no_slash)

lemma bundle_path_prefix: "e \<in> set BUNDLE_EXTENSIONS \<Longrightarrow> startswith (bundle_path self e) (target_dir self)"
  unfolding bundle_path_def
  by (rule startswith_path_join) (auto simp: startswith_def BUNDLE_EXTENSIONS_def)

lemma path_join_inject:
  "\<not> startswith b ''/'' \<Longrightarrow> \<not> startswith b' ''/'' \<Longrightarrow> path_join a b = path_join a b' \<Longrightarrow> b = b'"
  by (simp add: path_join_def split: if_splits)

lemma bundle_path_inject:
  "bundle_path self e = bundle_path self e' \<Longrightarrow> e = e'"
  unfolding bundle_path_def
  using path_join_inject [of "''bundle'' @ e" "''bundle'' @ e'" "target_dir self"]
  by (simp add: startswith_def)

lemma files_file_write:
  "files (file_write h s w) q =
     (if q = h then (case files w h of Some (File c) \<Rightarrow> Some (File (c @ s)) | v \<Rightarrow> v)
      else files w q)"
  by (auto simp: file_write_def split: option.splits entry.splits)

lemma bundle_resources_Cons_Inr:
  assumes "bundle_resources x self e h (r # rs) (m, w) = Inr res" and "is_file w (path r)"
  obtains w1 where
    "\<forall>q. q \<notin> staged_target self ` set (tokens_of e (file_content w (path r)))
        \<longrightarrow> files w1 q = files w q"
    and "bundle_resources x self e h rs
          (m @ transform x e (file_content w (path r)),
           file_write h [CHR 0x0A] (file_write h (transform x e (file_content w (path r))) w1))
         = Inr res"
proof (cases "e = ''.css''")
  case True
  with assms obtain c1 w1 where
    c: "copy_linked_resources self (file_content w (path r)) (path r) w = Inr (c1, w1)"
    by (auto simp: read_file_plain split: sum.splits)
  from copy_linked_resources_Inr [OF c] have c1: "c1 = rewrite_content (file_content w (path r))"
    and fr: "\<forall>q. q \<notin> staged_target self ` set (findall_url (file_content w (path r)))
        \<longrightarrow> files w1 q = files w q"
    by simp_all
  from assms c c1 True have "bundle_resources x self e h rs
          (m @ transform x e (file_content w (path r)),
           file_write h [CHR 0x0A] (file_write h (transform x e (file_content w (path r))) w1))
         = Inr res"
    by (simp add: read_file_plain transform_def Let_def)
  with fr True that show ?thesis by (simp add: tokens_of_def)
next
  case False
  with assms have "bundle_resources x self e h rs
          (m @ transform x e (file_content w (path r)),
           file_write h [CHR 0x0A] (file_write h (transform x e (file_content w (path r))) w))
         = Inr res"
    by (simp add: read_file_plain transform_def Let_def)
  then show ?thesis by (rule that [rotated]) simp
qed


lemma is_file_cong: "files w' p = files w p \<Longrightarrow> is_file w' p = is_file w p"
  by (simp add: is_file_def)

lemma file_content_cong: "files w' p = files w p \<Longrightarrow> file_content w' p = file_content w p"
  by (simp add: file_content_def)

lemma bundle_resources_Inr:
  assumes "bundle_resources x self e h rs (m, w) = Inr (m', w')"
    and "\<forall>r\<in>set rs. is_file w (path r) \<and> \<not> startswith (path r) (target_dir self)"
    and "\<forall>r\<in>set rs. \<forall>tok\<in>set (tokens_of e (file_content w (path r))).
           staged_target self tok \<noteq> h"
    and "startswith h (target_dir self)"
    and "files w h = Some (File old)"
  shows "m' = m @ concat (map (\<lambda>r. transform x e (file_content w (path r))) rs)
       \<and> files w' h = Some (File (old @ concat
             (map (\<lambda>r. transform x e (file_content w (path r)) @ [CHR 0x0A]) rs)))
       \<and> (\<forall>q. q \<noteq> h \<longrightarrow>
             (\<forall>r\<in>set rs. q \<notin> staged_target self ` set (tokens_of e (file_content w (path r))))
             \<longrightarrow> files w' q = files w q)"
  using assms
proof (induction rs arbitrary: m w old)
  case Nil
  then show ?case by simp
next
  case (Cons r rs)
  let ?c = "file_content w (path r)"
  let ?t = "transform x e ?c"
  from Cons.prems(2) have isf: "is_file w (path r)" by simp
  from bundle_resources_Cons_Inr [OF Cons.prems(1) isf] obtain w1 where
    fr: "\<forall>q. q \<notin> staged_target self ` set (tokens_of e ?c) \<longrightarrow> files w1 q = files w q"
    and run: "bundle_resources x self e h rs
          (m @ ?t, file_write h [CHR 0x0A] (file_write h ?t w1)) = Inr (m', w')"
    by blast
  let ?w2 = "file_write h [CHR 0x0A] (file_write h ?t w1)"
  from Cons.prems(3) have "h \<notin> staged_target self ` set (tokens_of e ?c)" by auto
  with fr Cons.prems(5) have h1: "files w1 h = Some (File old)" by simp
  then have h2: "files ?w2 h = Some (File (old @ ?t @ [CHR 0x0A]))"
    by (simp add: files_file_write)
  have other: "files ?w2 q = files w1 q" if "q \<noteq> h" for q
    using that by (simp add: files_file_write)
  have outside: "files ?w2 q = files w q" if "\<not> startswith q (target_dir self)" for q
  proof -
    from that Cons.prems(4) have "q \<noteq> h" by auto
    moreover from that staged_target_prefix [of self]
    have "q \<notin> staged_target self ` set (tokens_of e ?c)" by auto
    ultimately show ?thesis using other fr by simp
  qed
  have same: "files ?w2 (path r') = files w (path r')" if "r' \<in> set rs" for r'
    using that Cons.prems(2) outside by simp
  have cont: "file_content ?w2 (path r') = file_content w (path r')" if "r' \<in> set rs" for r'
    by (rule file_content_cong) (rule same [OF that])
  have isf2: "is_file ?w2 (path r') = is_file w (path r')" if "r' \<in> set rs" for r'
    by (rule is_file_cong) (rule same [OF that])
  have res: "\<forall>r\<in>set rs. is_file ?w2 (path r) \<and> \<not> startswith (path r) (target_dir self)"
    using Cons.prems(2) isf2 by simp
  have tok: "\<forall>r\<in>set rs. \<forall>tok\<in>set (tokens_of e (file_content ?w2 (path r))).
           staged_target self tok \<noteq> h"
    using Cons.prems(3) cont by simp
  from Cons.IH [OF run res tok Cons.prems(4) h2]
  have m': "m' = (m @ ?t) @ concat (map (\<lambda>r. transform x e (file_content ?w2 (path r))) rs)"
    and f': "files w' h = Some (File ((old @ ?t @ [CHR 0x0A]) @ concat
             (map (\<lambda>r. transform x e (file_content ?w2 (path r)) @ [CHR 0x0A]) rs)))"
    and fr': "\<forall>q. q \<noteq> h \<longrightarrow>
             (\<forall>r\<in>set rs. q \<notin> staged_target self ` set (tokens_of e (file_content ?w2 (path r))))
             \<longrightarrow> files w' q = files ?w2 q"
    by simp_all
  have map1: "map (\<lambda>r. transform x e (file_content ?w2 (path r))) rs
      = map (\<lambda>r. transform x e (file_content w (path r))) rs"
    using cont by (simp cong: map_cong)
  have map2: "map (\<lambda>r. transform x e (file_content ?w2 (path r)) @ [CHR 0x0A]) rs
      = map (\<lambda>r. transform x e (file_content w (path r)) @ [CHR 0x0A]) rs"
    using cont by (simp cong: map_cong)
  have frame: "files w' q = files w q"
    if "q \<noteq> h"
      and "\<forall>r\<in>set (r # rs). q \<notin> staged_target self ` set (tokens_of e (file_content w (path r)))"
    for q
  proof -
    from that(2) cont
    have "\<forall>r\<in>set rs. q \<notin> staged_target self ` set (tokens_of e (file_content ?w2 (path r)))"
      by simp
    with fr' that(1) have "files w' q = files ?w2 q" by simp
    also from that(1) have "\<dots> = files w1 q" by (rule other)
    also from that(2) fr have "\<dots> = files w q" by simp
    finally show ?thesis .
  qed
  from m' map1 have "m' = m @ concat (map (\<lambda>r. transform x e (file_content w (path r))) (r # rs))"
    by simp
  moreover from f' map2 have "files w' h = Some (File (old @ concat
             (map (\<lambda>r. transform x e (file_content w (path r)) @ [CHR 0x0A]) (r # rs))))"
    by simp
  ultimately show ?case using frame by blast
qed

lemma is_link_cong: "files w' p = files w p \<Longrightarrow> is_link w' p = is_link w p"
  by (simp add: is_link_def)

lemma separate_resource_cong:
  "files w' (path r) = files w (path r) \<Longrightarrow>
   separate_resource self w' e r = separate_resource self w e r"
  using is_link_cong [of w' "path r" w] file_content_cong [of w' "path r" w]
  by (simp add: separate_resource_def)

lemma separate_resourceD:
  assumes "separate_resource self w e r"
  shows "\<not> startswith (path r) (target_dir self)"
    and "\<not> is_link w (path r)"
    and "tok \<in> set (tokens_of e (file_content w (path r))) \<Longrightarrow> e' \<in> set BUNDLE_EXTENSIONS \<Longrightarrow>
         staged_target self tok \<noteq> bundle_path self e'"
  using assms by (auto simp: separate_resource_def list_all_iff)

text \<open>The paths the loop over one extension may change: the bundle and the staged names.\<close>

lemma bundle_resources_frame:
  assumes "bundle_resources x self e h rs (m, w) = Inr (m', w')"
    and "\<forall>r\<in>set rs. is_file w (path r) \<and> separate_resource self w e r"
    and "h = bundle_path self e" and "e \<in> set BUNDLE_EXTENSIONS"
    and "files w h = Some (File old)"
  shows "m' = m @ digest_text x w e rs"
    and "files w' h = Some (File (old @ bundle_text x w e rs))"
    and "\<And>q. \<not> startswith q (target_dir self) \<Longrightarrow> files w' q = files w q"
    and "\<And>e'. e' \<in> set BUNDLE_EXTENSIONS \<Longrightarrow> e' \<noteq> e \<Longrightarrow>
           files w' (bundle_path self e') = files w (bundle_path self e')"
proof -
  have res: "\<forall>r\<in>set rs. is_file w (path r) \<and> \<not> startswith (path r) (target_dir self)"
    using assms(2) by (auto dest: separate_resourceD(1))
  have tok: "\<forall>r\<in>set rs. \<forall>tok\<in>set (tokens_of e (file_content w (path r))).
           staged_target self tok \<noteq> h"
    using assms(2,3,4) by (auto dest: separate_resourceD(3))
  have pre: "startswith h (target_dir self)"
    using assms(3,4) by (simp add: bundle_path_prefix)
  note main = bundle_resources_Inr [OF assms(1) res tok pre assms(5)]
  from main show "m' = m @ digest_text x w e rs" by (simp add: digest_text_def)
  from main show "files w' h = Some (File (old @ bundle_text x w e rs))"
    by (simp add: bundle_text_def)
  from main have fr: "\<And>q. q \<noteq> h \<Longrightarrow>
      (\<forall>r\<in>set rs. q \<notin> staged_target self ` set (tokens_of e (file_content w (path r))))
      \<Longrightarrow> files w' q = files w q"
    by blast
  show "files w' q = files w q" if "\<not> startswith q (target_dir self)" for q
  proof (rule fr)
    from that pre show "q \<noteq> h" by auto
    from that staged_target_prefix [of self]
    show "\<forall>r\<in>set rs. q \<notin> staged_target self ` set (tokens_of e (file_content w (path r)))"
      by auto
  qed
  show "files w' (bundle_path self e') = files w (bundle_path self e')"
    if "e' \<in> set BUNDLE_EXTENSIONS" "e' \<noteq> e" for e'
  proof (rule fr)
    from that(2) assms(3) show "bundle_path self e' \<noteq> h" by (auto dest: bundle_path_inject)
    from assms(2) that(1)
    show "\<forall>r\<in>set rs. bundle_path self e'
        \<notin> staged_target self ` set (tokens_of e (file_content w (path r)))"
      using separate_resourceD(3) [of self w e _ _ e'] by fastforce
  qed
qed


lemma digest_text_cong:
  assumes "\<forall>r\<in>set rs. files w' (path r) = files w (path r)"
  shows "digest_text x w' e rs = digest_text x w e rs"
proof -
  have "file_content w' (path r) = file_content w (path r)" if "r \<in> set rs" for r
    using assms that by (intro file_content_cong) simp
  then show ?thesis by (simp add: digest_text_def cong: map_cong)
qed

lemma bundle_text_cong:
  assumes "\<forall>r\<in>set rs. files w' (path r) = files w (path r)"
  shows "bundle_text x w' e rs = bundle_text x w e rs"
proof -
  have "file_content w' (path r) = file_content w (path r)" if "r \<in> set rs" for r
    using assms that by (intro file_content_cong) simp
  then show ?thesis by (simp add: bundle_text_def cong: map_cong)
qed

lemma separate_inputsD:
  assumes "separate_inputs self w d"
  shows "distinct (map fst d)"
    and "(e, rs) \<in> set d \<Longrightarrow> e \<in> set BUNDLE_EXTENSIONS \<Longrightarrow> r \<in> set rs \<Longrightarrow>
         separate_resource self w e r"
    and "e' \<in> set BUNDLE_EXTENSIONS \<Longrightarrow> \<not> is_link w (bundle_path self e')"
  using assms by (auto simp: separate_inputs_def list_all_iff)

lemma readable_inputsD:
  "readable_inputs w d \<Longrightarrow> (e, rs) \<in> set d \<Longrightarrow> e \<in> set BUNDLE_EXTENSIONS \<Longrightarrow> r \<in> set rs \<Longrightarrow>
   is_file w (path r)"
  by (auto simp: readable_inputs_def list_all_iff)

lemma inputs_transfer:
  assumes sep: "separate_inputs self w d"
    and "\<forall>q. \<not> startswith q (target_dir self) \<longrightarrow> files w' q = files w q"
    and "\<forall>e\<in>set BUNDLE_EXTENSIONS. \<not> is_link w' (bundle_path self e)"
  shows "separate_inputs self w' d"
    and "readable_inputs w d \<Longrightarrow> readable_inputs w' d"
    and "digest_input x w' d = digest_input x w d"
    and "\<And>e rs. (e, rs) \<in> set d \<Longrightarrow> e \<in> set BUNDLE_EXTENSIONS \<Longrightarrow>
           bundle_text x w' e rs = bundle_text x w e rs"
proof -
  have outside: "files w' q = files w q" if "\<not> startswith q (target_dir self)" for q
    using assms(2) that by simp
  have links: "\<not> is_link w' (bundle_path self e)" if "e \<in> set BUNDLE_EXTENSIONS" for e
    using assms(3) that by simp
  have same: "files w' (path r) = files w (path r)"
    if "(e, rs) \<in> set d" "e \<in> set BUNDLE_EXTENSIONS" "r \<in> set rs" for e rs r
    using separate_inputsD(2) [OF sep that] by (intro outside) (rule separate_resourceD(1))
  show "separate_inputs self w' d"
    unfolding separate_inputs_def list_all_iff
  proof (intro conjI ballI)
    show "distinct (map fst d)" by (rule separate_inputsD(1) [OF sep])
    show "\<not> is_link w' (bundle_path self e)" if "e \<in> set BUNDLE_EXTENSIONS" for e
      by (rule links [OF that])
    show "case p of (e, rs) \<Rightarrow> e \<in> set BUNDLE_EXTENSIONS \<longrightarrow> (\<forall>r\<in>set rs. separate_resource self w' e r)"
      if "p \<in> set d" for p
    proof (cases p)
      case (Pair e rs)
      have "separate_resource self w' e r"
        if "e \<in> set BUNDLE_EXTENSIONS" "r \<in> set rs" for r
      proof -
        from \<open>p \<in> set d\<close> Pair have in_d: "(e, rs) \<in> set d" by simp
        from separate_resource_cong [OF same [OF in_d that]]
          separate_inputsD(2) [OF sep in_d that]
        show ?thesis by simp
      qed
      with Pair show ?thesis by simp
    qed
  qed
  show "readable_inputs w' d" if "readable_inputs w d"
    unfolding readable_inputs_def list_all_iff
  proof (intro ballI)
    fix p assume p: "p \<in> set d"
    show "case p of (e, rs) \<Rightarrow> e \<in> set BUNDLE_EXTENSIONS \<longrightarrow> (\<forall>r\<in>set rs. is_file w' (path r))"
    proof (cases p)
      case (Pair e rs)
      have "is_file w' (path r)" if "e \<in> set BUNDLE_EXTENSIONS" "r \<in> set rs" for r
      proof -
        from p Pair have in_d: "(e, rs) \<in> set d" by simp
        from is_file_cong [OF same [OF in_d that]] readable_inputsD [OF \<open>readable_inputs w d\<close> in_d that]
        show ?thesis by simp
      qed
      with Pair show ?thesis by simp
    qed
  qed
  show bt: "bundle_text x w' e rs = bundle_text x w e rs"
    if "(e, rs) \<in> set d" "e \<in> set BUNDLE_EXTENSIONS" for e rs
    using same [OF that] by (intro bundle_text_cong) simp
  have "map (\<lambda>(e, rs). digest_text x w' e rs) (bundled d)
      = map (\<lambda>(e, rs). digest_text x w e rs) (bundled d)"
  proof (rule map_cong [OF refl])
    fix p assume "p \<in> set (bundled d)"
    then obtain e rs where p: "p = (e, rs)" "(e, rs) \<in> set d" "e \<in> set BUNDLE_EXTENSIONS"
      by (auto simp: bundled_def)
    from same [OF p(2,3)] have "digest_text x w' e rs = digest_text x w e rs"
      by (intro digest_text_cong) simp
    with p(1) show "(case p of (e, rs) \<Rightarrow> digest_text x w' e rs)
        = (case p of (e, rs) \<Rightarrow> digest_text x w e rs)" by simp
  qed
  then show "digest_input x w' d = digest_input x w d"
    unfolding digest_input_def by (rule arg_cong)
qed

lemma separate_inputs_Cons:
  assumes "separate_inputs self w ((e, rs) # d)"
  shows "e \<notin> fst ` set d"
    and "e \<in> set BUNDLE_EXTENSIONS \<Longrightarrow> \<forall>r\<in>set rs. separate_resource self w e r"
    and "separate_inputs self w d"
  using assms by (auto simp: separate_inputs_def list_all_iff)

lemma readable_inputs_Cons:
  assumes "readable_inputs w ((e, rs) # d)"
  shows "e \<in> set BUNDLE_EXTENSIONS \<Longrightarrow> \<forall>r\<in>set rs. is_file w (path r)"
    and "readable_inputs w d"
  using assms by (auto simp: readable_inputs_def list_all_iff)

lemma bundled_Cons:
  "bundled ((e, rs) # d) = (if e \<in> set BUNDLE_EXTENSIONS then (e, rs) # bundled d else bundled d)"
  by (simp add: bundled_def)

lemma bundle_items_skip:
  "e \<notin> set BUNDLE_EXTENSIONS \<Longrightarrow>
   bundle_items x self ((e, rs) # d) (m, names, w) = bundle_items x self d (m, names, w)"
  by simp

lemma bundle_items_eligible:
  "e \<in> set BUNDLE_EXTENSIONS \<Longrightarrow>
   bundle_items x self ((e, rs) # d) (m, names, w) =
     (case open_w (bundle_path self e) w of
        Inl err \<Rightarrow> Inl err
      | Inr (h, w1) \<Rightarrow>
          (case bundle_resources x self e h rs (m, w1) of
             Inl err \<Rightarrow> Inl err
           | Inr (m', w2) \<Rightarrow> bundle_items x self d (m', names @ [''bundle'' @ e], w2)))"
  by (simp only: bundle_items.simps Let_def bundle_path_def simp_thms if_False)

declare bundle_items.simps(2) [simp del]

lemma bundle_items_Inr:
  assumes "bundle_items x self d (m, names, w) = Inr (m', names', w')"
    and "separate_inputs self w d" and "readable_inputs w d"
  shows "m' = m @ digest_input x w d
       \<and> names' = names @ bundle_names_of d
       \<and> (\<forall>e rs. (e, rs) \<in> set d \<longrightarrow> e \<in> set BUNDLE_EXTENSIONS \<longrightarrow>
             files w' (bundle_path self e) = Some (File (bundle_text x w e rs)))
       \<and> (\<forall>e. e \<in> set BUNDLE_EXTENSIONS \<longrightarrow> e \<notin> fst ` set d \<longrightarrow>
             files w' (bundle_path self e) = files w (bundle_path self e))
       \<and> (\<forall>q. \<not> startswith q (target_dir self) \<longrightarrow> files w' q = files w q)"
  using assms
proof (induction d arbitrary: m names w)
  case Nil
  then show ?case by (simp add: digest_input_def bundle_names_of_def bundled_def)
next
  case (Cons item d)
  obtain e rs where item: "item = (e, rs)" by (cases item)
  note sep = separate_inputs_Cons [OF Cons.prems(2) [unfolded item]]
  note rd = readable_inputs_Cons [OF Cons.prems(3) [unfolded item]]
  show ?case
  proof (cases "e \<in> set BUNDLE_EXTENSIONS")
    case False
    with Cons.prems(1) item have "bundle_items x self d (m, names, w) = Inr (m', names', w')"
      by (simp add: bundle_items_skip)
    from Cons.IH [OF this sep(3) rd(2)] False item show ?thesis
      by (auto simp: digest_input_def bundle_names_of_def bundled_Cons)
  next
    case True
    let ?h = "bundle_path self e"
    let ?w1 = "w\<lparr>files := (files w)(?h \<mapsto> File []), trace := trace w @ [OpenW ?h]\<rparr>"
    have nl: "\<not> is_link w ?h" by (rule separate_inputsD(3) [OF Cons.prems(2) True])
    have "files w ?h \<noteq> Some Dir"
    proof
      assume "files w ?h = Some Dir"
      from open_w_Dir [OF this] Cons.prems(1) item True show False
        by (simp add: bundle_items_eligible)
    qed
    from open_w_plain [OF nl this] have op: "open_w ?h w = Inr (?h, ?w1)" .
    with Cons.prems(1) item True obtain m1 w2 where
      inner: "bundle_resources x self e ?h rs (m, ?w1) = Inr (m1, w2)"
      and rest: "bundle_items x self d (m1, names @ [''bundle'' @ e], w2) = Inr (m', names', w')"
      by (auto simp: bundle_items_eligible split: sum.splits)
    have pre: "startswith ?h (target_dir self)" by (rule bundle_path_prefix [OF True])
    have out1: "files ?w1 q = files w q" if "\<not> startswith q (target_dir self)" for q
      using that pre by auto
    have same1: "files ?w1 (path r) = files w (path r)" if "r \<in> set rs" for r
      using sep(2) [OF True] that by (intro out1) (auto dest: separate_resourceD(1))
    have res1: "\<forall>r\<in>set rs. is_file ?w1 (path r) \<and> separate_resource self ?w1 e r"
    proof
      fix r assume r: "r \<in> set rs"
      from is_file_cong [OF same1 [OF r]] rd(1) [OF True] r
      have "is_file ?w1 (path r)" by simp
      moreover from separate_resource_cong [OF same1 [OF r]] sep(2) [OF True] r
      have "separate_resource self ?w1 e r" by simp
      ultimately show "is_file ?w1 (path r) \<and> separate_resource self ?w1 e r" ..
    qed
    have h1: "files ?w1 ?h = Some (File [])" by simp
    note fr = bundle_resources_frame [OF inner res1 refl True h1]
    have m1: "m1 = m @ digest_text x w e rs"
      using fr(1) digest_text_cong [of rs ?w1 w x e] same1 by simp
    have f2: "files w2 ?h = Some (File (bundle_text x w e rs))"
      using fr(2) bundle_text_cong [of rs ?w1 w x e] same1 by simp
    have out2: "files w2 q = files w q" if "\<not> startswith q (target_dir self)" for q
      using fr(3) [OF that] out1 [OF that] by simp
    have other2: "files w2 (bundle_path self e') = files w (bundle_path self e')"
      if "e' \<in> set BUNDLE_EXTENSIONS" "e' \<noteq> e" for e'
    proof -
      from that(2) have "bundle_path self e' \<noteq> ?h" by (auto dest: bundle_path_inject)
      with fr(4) [OF that] show ?thesis by simp
    qed
    have links2: "\<not> is_link w2 (bundle_path self e')" if "e' \<in> set BUNDLE_EXTENSIONS" for e'
    proof (cases "e' = e")
      case True
      with f2 show ?thesis by (simp add: is_link_def)
    next
      case False
      from is_link_cong [OF other2 [OF that False]] separate_inputsD(3) [OF Cons.prems(2) that]
      show ?thesis by simp
    qed
    from out2 have out2': "\<forall>q. \<not> startswith q (target_dir self) \<longrightarrow> files w2 q = files w q"
      by simp
    from links2 have links2': "\<forall>e\<in>set BUNDLE_EXTENSIONS. \<not> is_link w2 (bundle_path self e)"
      by simp
    note tr = inputs_transfer [OF sep(3) out2' links2']
    from Cons.IH [OF rest tr(1) tr(2) [OF rd(2)]]
    have m': "m' = m1 @ digest_input x w2 d"
      and n': "names' = (names @ [''bundle'' @ e]) @ bundle_names_of d"
      and b': "\<And>e rs. (e, rs) \<in> set d \<Longrightarrow> e \<in> set BUNDLE_EXTENSIONS \<Longrightarrow>
             files w' (bundle_path self e) = Some (File (bundle_text x w2 e rs))"
      and a': "\<And>e. e \<in> set BUNDLE_EXTENSIONS \<Longrightarrow> e \<notin> fst ` set d \<Longrightarrow>
             files w' (bundle_path self e) = files w2 (bundle_path self e)"
      and o': "\<And>q. \<not> startswith q (target_dir self) \<Longrightarrow> files w' q = files w2 q"
      by blast+
    have c1: "m' = m @ digest_input x w (item # d)"
      using m' m1 tr(3) [of x] item True by (simp add: digest_input_def bundled_Cons)
    have c2: "names' = names @ bundle_names_of (item # d)"
      using n' item True by (simp add: bundle_names_of_def bundled_Cons)
    have c3: "files w' (bundle_path self e') = Some (File (bundle_text x w e' rs'))"
      if "(e', rs') \<in> set (item # d)" "e' \<in> set BUNDLE_EXTENSIONS" for e' rs'
    proof (cases "(e', rs') = (e, rs)")
      case True
      with a' [OF \<open>e \<in> set BUNDLE_EXTENSIONS\<close> sep(1)] f2 show ?thesis by simp
    next
      case False
      with that(1) item have in_d: "(e', rs') \<in> set d" by auto
      from b' [OF in_d that(2)] tr(4) [OF in_d that(2)] show ?thesis by simp
    qed
    have c4: "files w' (bundle_path self e') = files w (bundle_path self e')"
      if "e' \<in> set BUNDLE_EXTENSIONS" "e' \<notin> fst ` set (item # d)" for e'
    proof -
      from that(2) item have ne: "e' \<noteq> e" and nd: "e' \<notin> fst ` set d" by auto
      from a' [OF that(1) nd] other2 [OF that(1) ne] show ?thesis by simp
    qed
    have c5: "files w' q = files w q" if "\<not> startswith q (target_dir self)" for q
      using o' [OF that] out2 [OF that] by simp
    from c1 c2 c3 c4 c5 show ?thesis by blast
  qed
qed

lemma digest_text_contributions: "digest_text x w e rs = concat (contributions x w e rs)"
  by (simp add: digest_text_def contributions_def)

lemma bundle_text_contributions:
  "bundle_text x w e rs = concat (map (\<lambda>c. c @ [CHR 0x0A]) (contributions x w e rs))"
  by (simp add: bundle_text_def contributions_def o_def)

lemma create_bundles_by_type_Inr:
  assumes "create_bundles_by_type x self d w = Inr ((version, names), w')"
    and "separate_inputs self w d" and "readable_inputs w d"
  shows "version = md5_hexdigest x (digest_input x w d)"
    and "names = bundle_names_of d"
    and "\<And>e rs. (e, rs) \<in> set d \<Longrightarrow> e \<in> set BUNDLE_EXTENSIONS \<Longrightarrow>
           files w' (bundle_path self e) = Some (File (bundle_text x w e rs))"
    and "\<And>e. e \<in> set BUNDLE_EXTENSIONS \<Longrightarrow> e \<notin> fst ` set d \<Longrightarrow>
           files w' (bundle_path self e) = files w (bundle_path self e)"
    and "\<And>q. \<not> startswith q (target_dir self) \<Longrightarrow> files w' q = files w q"
proof -
  from assms(1) obtain m where
    run: "bundle_items x self d ([], [], w) = Inr (m, names, w')"
    and v: "version = md5_hexdigest x m"
    by (auto simp: create_bundles_by_type_def split: sum.splits)
  note main = bundle_items_Inr [OF run assms(2,3)]
  from main v show "version = md5_hexdigest x (digest_input x w d)" by simp
  from main show "names = bundle_names_of d" by simp
  from main show "files w' (bundle_path self e) = Some (File (bundle_text x w e rs))"
    if "(e, rs) \<in> set d" "e \<in> set BUNDLE_EXTENSIONS" for e rs
    using that by blast
  from main show "files w' (bundle_path self e) = files w (bundle_path self e)"
    if "e \<in> set BUNDLE_EXTENSIONS" "e \<notin> fst ` set d" for e
    using that by blast
  from main show "files w' q = files w q" if "\<not> startswith q (target_dir self)" for q
    using that by blast
qed

lemma follow_None: "fs p = None \<Longrightarrow> follow k fs p = Some p"
  by (cases k) simp_all

lemma follow_File: "fs p = Some (File c) \<Longrightarrow> follow k fs p = Some p"
  by (cases k) simp_all

lemma follow_Dir: "fs p = Some Dir \<Longrightarrow> follow k fs p = Some p"
  by (cases k) simp_all

lemma follow_Link:
  "fs p = Some (Link t) \<Longrightarrow>
   follow (numeral n) fs p = follow (pred_numeral n) fs (path_join (dirname p) t)"
  by (simp add: numeral_eq_Suc)

lemmas eval_follow = follow_None follow_File follow_Dir follow_Link

lemmas eval_world =
  is_file_def is_link_def file_content_def bundle_path_def tokens_of_def transform_def
  separate_resource_def separate_inputs_def readable_inputs_def bundle_text_def digest_text_def
  bundled_def digest_input_def bundle_names_of_def contributions_def resources_of_def
  BUNDLE_EXTENSIONS_def RESOURCE_EXTENSIONS_def MINIFIERS_def BUNDLE_DIR_NAME_def

lemmas eval_bundler =
  eval_follow Let_def create_bundles_by_type_def bundle_items_eligible bundle_items_skip open_w_def read_file_def
  file_write_def

text \<open>
  C1, as stated, fails: in the widget scenario the bytes of \<^verbatim>\<open>bundle.js\<close> are the two
  minified contents, each followed by a newline, while the \<^verbatim>\<open>md5\<close> object has been fed
  the two minified contents only. With the stand-in digest that returns its input, the
  version is not the digest of the bytes of \<^verbatim>\<open>bundle.js\<close>.
\<close>

theorem digest_newline_counterexample:
  "map_sum id (\<lambda>(m, names, w). (m, files w ''/out/bowerstatic_bundle_widget/bundle.js''))
     (bundle_items toy_externals widget_recipe widget_resources ([], [], widget_world))
     = Inr (''varj;varw;'', Some (File (''varj;'' @ [CHR 0x0A] @ ''varw;'' @ [CHR 0x0A])))
   \<and> map_sum id (\<lambda>((version, names), w). version)
       (create_bundles_by_type toy_externals widget_recipe widget_resources widget_world)
     = Inr (md5_hexdigest toy_externals ''varj;varw;'')
   \<and> md5_hexdigest toy_externals ''varj;varw;''
     \<noteq> md5_hexdigest toy_externals (''varj;'' @ [CHR 0x0A] @ ''varw;'' @ [CHR 0x0A])"
  by (simp add: eval_strings eval_world eval_bundler target_dir_def widget_recipe_def
      widget_resources_def widget_world_def toy_externals_def)


text \<open>
  C1, amended: when the inputs are separate from the outputs and readable and the build
  succeeds, the version is the digest of the contributions of the resources alone (each
  content, rewritten if a stylesheet, then minified), in the order of the bundles and,
  within a bundle, of its resources; every bundle file holds the same contributions, each
  followed by a newline. The newlines are written and not hashed.
\<close>

theorem digest_covers_contents_only:
  assumes "separate_inputs self w d" and "readable_inputs w d"
    and "create_bundles_by_type x self d w = Inr ((version, names), w')"
  shows "version = md5_hexdigest x
           (concat (map (\<lambda>(e, rs). concat (contributions x w e rs)) (bundled d)))
       \<and> (\<forall>(e, rs)\<in>set (bundled d).
             files w' (bundle_path self e)
               = Some (File (concat (map (\<lambda>c. c @ [CHR 0x0A]) (contributions x w e rs)))))"
proof -
  note main = create_bundles_by_type_Inr [OF assms(3,1,2)]
  have "digest_input x w d = concat (map (\<lambda>(e, rs). concat (contributions x w e rs)) (bundled d))"
    by (simp add: digest_input_def digest_text_contributions)
  with main(1) have "version = md5_hexdigest x
           (concat (map (\<lambda>(e, rs). concat (contributions x w e rs)) (bundled d)))"
    by simp
  moreover have "files w' (bundle_path self e)
      = Some (File (concat (map (\<lambda>c. c @ [CHR 0x0A]) (contributions x w e rs))))"
    if "(e, rs) \<in> set (bundled d)" for e rs
  proof -
    from that have "(e, rs) \<in> set d" "e \<in> set BUNDLE_EXTENSIONS" by (auto simp: bundled_def)
    from main(3) [OF this] show ?thesis by (simp add: bundle_text_contributions)
  qed
  ultimately show ?thesis by blast
qed

lemma widget_inputs:
  "separate_inputs widget_recipe widget_world widget_resources"
  "readable_inputs widget_world widget_resources"
  by (simp_all add: eval_strings eval_world target_dir_def widget_recipe_def
      widget_resources_def widget_world_def)

lemma widget_bundles_run:
  "\<exists>version names w'.
     create_bundles_by_type toy_externals widget_recipe widget_resources widget_world
       = Inr ((version, names), w')"
  by (simp add: eval_strings eval_world eval_bundler target_dir_def widget_recipe_def
      widget_resources_def widget_world_def toy_externals_def)

theorem digest_covers_contents_only_witness:
  "map_sum id (\<lambda>((version, names), w).
       (version, files w ''/out/bowerstatic_bundle_widget/bundle.js''))
     (create_bundles_by_type toy_externals widget_recipe widget_resources widget_world)
   = Inr (md5_hexdigest toy_externals (''varj;'' @ ''varw;''),
          Some (File (''varj;'' @ [CHR 0x0A] @ ''varw;'' @ [CHR 0x0A])))"
proof -
  from widget_bundles_run obtain version names w' where
    run: "create_bundles_by_type toy_externals widget_recipe widget_resources widget_world
       = Inr ((version, names), w')"
    by blast
  have path: "bundle_path widget_recipe ''.js'' = ''/out/bowerstatic_bundle_widget/bundle.js''"
    by (simp add: eval_strings bundle_path_def target_dir_def widget_recipe_def)
  have contents: "contributions toy_externals widget_world ''.js'' (snd (hd widget_resources))
      = [''varj;'', ''varw;'']"
    by (simp add: eval_world widget_resources_def widget_world_def toy_externals_def)
  have items: "bundled widget_resources = [(''.js'', snd (hd widget_resources))]"
    by (simp add: eval_world widget_resources_def)
  from digest_covers_contents_only [OF widget_inputs run] show ?thesis
    by (simp add: run items contents path)
qed







lemma classify_step:
  "classify x environ (n # ns) d =
     classify x environ ns (setdefault_append (ext (resource_of environ n)) (resolve x environ n) d)"
  by (simp add: resolve_def Let_def)

declare classify.simps(2) [simp del]






lemma widget_classified: "get_resources_by_type toy_externals widget_environ = Inr widget_resources"
  by (simp add: get_resources_by_type_def topological_sort_def classify_step resolve_def
      widget_environ_def widget_resources_def toy_externals_def)


lemma link_resources_trace:
  "link_resources self p toks (c, w) = Inr (c', w') \<Longrightarrow>
   \<exists>es. trace w' = trace w @ es \<and> list_all is_bundle_event es"
proof (induction toks arbitrary: c w)
  case Nil
  then show ?case by simp
next
  case (Cons tok toks)
  let ?w = "stage (path_join (dirname p) (sanitize_filename tok)) (staged_target self tok) w"
  from Cons.prems have "link_resources self p toks (rewrite_step c tok, ?w) = Inr (c', w')"
    by (simp add: link_resources_Cons split: if_splits)
  from Cons.IH [OF this] obtain es where "trace w' = trace ?w @ es" "list_all is_bundle_event es"
    by blast
  then show ?case by (auto simp: stage_def)
qed

lemma bundle_resources_trace:
  "bundle_resources x self e h rs (m, w) = Inr (m', w') \<Longrightarrow>
   \<exists>es. trace w' = trace w @ es \<and> list_all is_bundle_event es"
proof (induction rs arbitrary: m w)
  case Nil
  then show ?case by simp
next
  case (Cons r rs)
  from Cons.prems obtain c c1 w1 m1 where
    lk: "(if e = ''.css'' then copy_linked_resources self c (path r) w else Inr (c, w)) = Inr (c1, w1)"
    and rest: "bundle_resources x self e h rs
        (m1, file_write h [CHR 0x0A] (file_write h
           (case map_of (MINIFIERS x) e of Some minify \<Rightarrow> minify c1 | None \<Rightarrow> c1) w1)) = Inr (m', w')"
    by (auto simp: Let_def split: sum.splits)
  from lk have "\<exists>es. trace w1 = trace w @ es \<and> list_all is_bundle_event es"
    by (auto simp: copy_linked_resources_def dest: link_resources_trace split: if_splits)
  then obtain es1 where es1: "trace w1 = trace w @ es1" "list_all is_bundle_event es1" by blast
  from Cons.IH [OF rest] obtain es2 where
    es2: "trace w' = trace (file_write h [CHR 0x0A] (file_write h
           (case map_of (MINIFIERS x) e of Some minify \<Rightarrow> minify c1 | None \<Rightarrow> c1) w1)) @ es2"
      "list_all is_bundle_event es2"
    by blast
  from es1 es2 show ?case by (auto simp: file_write_def)
qed

lemma bundle_items_trace:
  "bundle_items x self d (m, names, w) = Inr (m', names', w') \<Longrightarrow>
   \<exists>es. trace w' = trace w @ es \<and> list_all is_bundle_event es"
proof (induction d arbitrary: m names w)
  case Nil
  then show ?case by simp
next
  case (Cons item d)
  obtain e rs where item: "item = (e, rs)" by (cases item)
  show ?case
  proof (cases "e \<in> set BUNDLE_EXTENSIONS")
    case False
    with Cons item show ?thesis by (simp add: bundle_items_skip)
  next
    case True
    with Cons.prems item obtain h w1 m1 w2 where
      op: "open_w (bundle_path self e) w = Inr (h, w1)"
      and inner: "bundle_resources x self e h rs (m, w1) = Inr (m1, w2)"
      and rest: "bundle_items x self d (m1, names @ [''bundle'' @ e], w2) = Inr (m', names', w')"
      by (auto simp: bundle_items_eligible split: sum.splits)
    from op have "trace w1 = trace w @ [OpenW h]"
      by (auto simp: open_w_def split: option.splits entry.splits)
    moreover from bundle_resources_trace [OF inner] obtain es1 where
      "trace w2 = trace w1 @ es1" "list_all is_bundle_event es1" by blast
    moreover from Cons.IH [OF rest] obtain es2 where
      "trace w' = trace w2 @ es2" "list_all is_bundle_event es2" by blast
    ultimately show ?thesis by auto
  qed
qed

lemma create_bundles_by_type_trace:
  "create_bundles_by_type x self d w = Inr (r, w') \<Longrightarrow>
   \<exists>es. trace w' = trace w @ es \<and> list_all is_bundle_event es"
  by (auto simp: create_bundles_by_type_def dest: bundle_items_trace split: sum.splits)

lemma shutil_copyfile_trace:
  "shutil_copyfile src dst w = Inr w' \<Longrightarrow> trace w' = trace w @ [CopyFile src dst]"
  by (auto simp: shutil_copyfile_def split: if_splits sum.splits option.splits entry.splits)

lemma os_makedirs_trace: "os_makedirs p w = Inr w' \<Longrightarrow> trace w' = trace w @ [Makedirs p]"
  by (auto simp: os_makedirs_def split: if_splits)

lemma copy_resources_trace:
  "copy_resources self rs (copied, w) = Inr (copied', w') \<Longrightarrow>
   \<exists>es. trace w' = trace w @ es \<and> list_all is_copy_event es"
proof (induction rs arbitrary: copied w)
  case Nil
  then show ?case by simp
next
  case (Cons r rs)
  let ?dir = "path_join (target_dir self) (package r)"
  from Cons.prems obtain w1 w2 copied1 where
    mk: "(if \<not> os_path_exists w ?dir then os_makedirs ?dir w else Inr w) = Inr w1"
    and cp: "shutil_copyfile (path r) (path_join ?dir (basename (path r))) w1 = Inr w2"
    and rest: "copy_resources self rs (copied1, w2) = Inr (copied', w')"
    by (auto simp: Let_def split: sum.splits)
  from mk have "trace w1 = trace w \<or> trace w1 = trace w @ [Makedirs ?dir]"
    by (auto dest: os_makedirs_trace split: if_splits)
  moreover note shutil_copyfile_trace [OF cp]
  moreover from Cons.IH [OF rest] obtain es where
    "trace w' = trace w2 @ es" "list_all is_copy_event es" by blast
  ultimately show ?case by auto
qed

lemma copy_items_trace:
  "copy_items self d (copied, w) = Inr (copied', w') \<Longrightarrow>
   \<exists>es. trace w' = trace w @ es \<and> list_all is_copy_event es"
proof (induction d arbitrary: copied w)
  case Nil
  then show ?case by simp
next
  case (Cons item d)
  obtain e rs where item: "item = (e, rs)" by (cases item)
  show ?case
  proof (cases "e \<in> set RESOURCE_EXTENSIONS")
    case False
    with Cons item show ?thesis by simp
  next
    case True
    with Cons.prems item obtain copied1 w1 where
      inner: "copy_resources self rs (copied, w) = Inr (copied1, w1)"
      and rest: "copy_items self d (copied1, w1) = Inr (copied', w')"
      by (auto split: sum.splits)
    from copy_resources_trace [OF inner] obtain es1 where
      "trace w1 = trace w @ es1" "list_all is_copy_event es1" by blast
    moreover from Cons.IH [OF rest] obtain es2 where
      "trace w' = trace w1 @ es2" "list_all is_copy_event es2" by blast
    ultimately show ?thesis by auto
  qed
qed


lemma assure_target_dir_trace:
  "assure_target_dir self w = Inr w1 \<Longrightarrow>
   trace w1 = trace w \<or> trace w1 = trace w @ [Makedirs (target_dir self)]"
  by (auto simp: assure_target_dir_def dest: os_makedirs_trace split: if_splits)

lemma write_bower_json_trace:
  "write_bower_json x self d w = Inr w' \<Longrightarrow>
   \<exists>h. trace w' = trace w @ [OpenW h, Write h (json_dumps x d)]"
  by (auto simp: write_bower_json_def open_w_def file_write_def
      split: sum.splits option.splits entry.splits)

lemmas eval_copier =
  copy_resources_by_type_def os_path_exists_def os_makedirs_def shutil_copyfile_def samefile_def
  assure_target_dir_def write_bower_json_def update_component_def get_resources_by_type_def
  topological_sort_def classify_step replace_char_def

text \<open>
  C3, as stated, fails: in the build of a component with a script and an image, the
  image is copied before the bundle of the script is opened.
\<close>

theorem copier_runs_first_counterexample:
  "map_sum id (\<lambda>(self, w). trace w)
     (update_component toy_externals start_recipe ''gallery'' gallery_environ gallery_world)
   = Inr [Makedirs ''/out/bowerstatic_bundle_gallery'',
          Makedirs ''/out/bowerstatic_bundle_gallery/gallery'',
          CopyFile ''/src/gallery/logo.png'' ''/out/bowerstatic_bundle_gallery/gallery/logo.png'',
          OpenW ''/out/bowerstatic_bundle_gallery/bundle.js'',
          Write ''/out/bowerstatic_bundle_gallery/bundle.js'' ''varg;'',
          Write ''/out/bowerstatic_bundle_gallery/bundle.js'' [CHR 0x0A],
          OpenW ''/out/bowerstatic_bundle_gallery/.bower.json'',
          Write ''/out/bowerstatic_bundle_gallery/.bower.json''
            ''bowerstatic_bundle_gallery|gallery/logo.png,bundle.js,|varg;'']"
  by (simp add: eval_strings eval_world eval_bundler eval_copier resolve_def target_dir_def
      start_recipe_def gallery_environ_def gallery_world_def toy_externals_def)

text \<open>
  C3, amended: a build that succeeds has ensured the output directory, classified the
  resources, run the copier on the classifier's dictionary, run the bundle builder on
  the same dictionary in the file system the copier left, and written the manifest last,
  in this order. Its trace is that of the copier (directories made, files copied)
  followed by that of the bundle builder (bundles opened and written, names unlinked and
  linked) followed by the manifest: every auxiliary resource is copied before any bundle
  is written.
\<close>

theorem build_order:
  assumes "update_component x self0 name environ w = Inr (self, w')"
  shows "\<exists>w1 d copied w2 version names w3 cs bs h.
           assure_target_dir self w = Inr w1
         \<and> (trace w1 = trace w \<or> trace w1 = trace w @ [Makedirs (target_dir self)])
         \<and> get_resources_by_type x environ = Inr d
         \<and> copy_resources_by_type self d w1 = Inr (copied, w2)
         \<and> trace w2 = trace w1 @ cs \<and> list_all is_copy_event cs
         \<and> create_bundles_by_type x self d w2 = Inr ((version, names), w3)
         \<and> trace w3 = trace w2 @ bs \<and> list_all is_bundle_event bs
         \<and> trace w' = trace w3 @
              [OpenW h, Write h (json_dumps x \<lparr>manifest_name = current_component_name self,
                 manifest_main = copied @ names, manifest_version = version\<rparr>)]"
proof -
  let ?self = "self0\<lparr>current_component_name :=
                   BUNDLE_DIR_NAME @ ''_'' @ replace_char (CHR ''.'') (CHR ''_'') name\<rparr>"
  from assms obtain w1 d copied w2 version names w3 where
    self: "self = ?self"
    and a: "assure_target_dir self w = Inr w1"
    and c: "get_resources_by_type x environ = Inr d"
    and cp: "copy_resources_by_type self d w1 = Inr (copied, w2)"
    and b: "create_bundles_by_type x self d w2 = Inr ((version, names), w3)"
    and m: "write_bower_json x self \<lparr>manifest_name = current_component_name self,
                 manifest_main = copied @ names, manifest_version = version\<rparr> w3 = Inr w'"
    by (auto simp: update_component_def Let_def split: sum.splits)
  from cp obtain cs where cs: "trace w2 = trace w1 @ cs" "list_all is_copy_event cs"
    unfolding copy_resources_by_type_def by (auto dest: copy_items_trace)
  from create_bundles_by_type_trace [OF b] obtain bs where
    bs: "trace w3 = trace w2 @ bs" "list_all is_bundle_event bs" by blast
  from write_bower_json_trace [OF m] obtain h where
    h: "trace w' = trace w3 @
              [OpenW h, Write h (json_dumps x \<lparr>manifest_name = current_component_name self,
                 manifest_main = copied @ names, manifest_version = version\<rparr>)]" by blast
  from a assure_target_dir_trace [OF a] c cp cs b bs h show ?thesis by blast
qed

lemma gallery_build_run:
  "\<exists>self w'. update_component toy_externals start_recipe ''gallery'' gallery_environ gallery_world
     = Inr (self, w')"
  by (simp add: eval_strings eval_world eval_bundler eval_copier resolve_def target_dir_def
      start_recipe_def gallery_environ_def gallery_world_def toy_externals_def)

theorem build_order_witness:
  "\<exists>cs bs h manifest.
     map_sum id (\<lambda>(self, w). trace w)
       (update_component toy_externals start_recipe ''gallery'' gallery_environ gallery_world)
     = Inr (Makedirs ''/out/bowerstatic_bundle_gallery'' # cs @ bs @ [OpenW h, Write h manifest])
     \<and> list_all is_copy_event cs \<and> list_all is_bundle_event bs"
proof -
  from gallery_build_run obtain self w' where
    run: "update_component toy_externals start_recipe ''gallery'' gallery_environ gallery_world
       = Inr (self, w')" by blast
  then have self: "target_dir self = ''/out/bowerstatic_bundle_gallery''"
    by (auto simp: update_component_def Let_def target_dir_def start_recipe_def eval_strings
        BUNDLE_DIR_NAME_def replace_char_def split: sum.splits)
  from build_order [OF run] obtain w1 cs bs h manifest where
    a: "assure_target_dir self gallery_world = Inr w1"
    and t: "trace w' = ((trace w1 @ cs) @ bs) @ [OpenW h, Write h manifest]"
    and ev: "list_all is_copy_event cs" "list_all is_bundle_event bs"
    by force
  from a self have "trace w1 = [Makedirs ''/out/bowerstatic_bundle_gallery'']"
    by (auto simp: assure_target_dir_def os_path_exists_def os_makedirs_def gallery_world_def
        eval_follow split: if_splits)
  with t ev run show ?thesis by auto
qed

lemma path_join_neq: "b \<noteq> [] \<Longrightarrow> \<not> startswith b ''/'' \<Longrightarrow> path_join a b \<noteq> a"
  by (simp add: path_join_def)

lemma no_inclusions_classified:
  "inclusions environ = None \<or> inclusions environ = Some [] \<Longrightarrow>
   get_resources_by_type x environ = Inr []"
  by (auto simp: get_resources_by_type_def topological_sort_def)

lemma assure_target_dir_ok:
  assumes "files w (target_dir self) = None \<or> files w (target_dir self) = Some Dir"
  obtains w1 where "assure_target_dir self w = Inr w1"
    and "\<forall>q. q \<noteq> target_dir self \<longrightarrow> files w1 q = files w q"
proof (cases "files w (target_dir self)")
  case None
  then have "assure_target_dir self w
      = Inr (w\<lparr>files := (files w)(target_dir self \<mapsto> Dir),
                trace := trace w @ [Makedirs (target_dir self)]\<rparr>)"
    by (simp add: assure_target_dir_def os_path_exists_def os_makedirs_def follow_None)
  then show ?thesis by (rule that) simp
next
  case (Some a)
  with assms have "files w (target_dir self) = Some Dir" by simp
  then have "assure_target_dir self w = Inr w"
    by (simp add: assure_target_dir_def os_path_exists_def follow_Dir)
  then show ?thesis by (rule that) simp
qed

text \<open>
  C5: for a component without inclusions (the environment has none, or an empty list of
  them) the classifier returns the empty dictionary. When the output directory is absent
  or a directory and the manifest path is free or a regular file, the build succeeds,
  and the manifest it writes has an empty \<open>main\<close> and the digest of no bytes as version.
\<close>

theorem no_inclusions_empty_manifest:
  assumes "inclusions environ = None \<or> inclusions environ = Some []"
    and "self = self0\<lparr>current_component_name :=
                   BUNDLE_DIR_NAME @ ''_'' @ replace_char (CHR ''.'') (CHR ''_'') name\<rparr>"
    and "files w (target_dir self) = None \<or> files w (target_dir self) = Some Dir"
    and "\<not> is_link w (path_join (target_dir self) ''.bower.json'')"
    and "files w (path_join (target_dir self) ''.bower.json'') \<noteq> Some Dir"
  shows "get_resources_by_type x environ = Inr []
       \<and> (\<exists>w'. update_component x self0 name environ w = Inr (self, w')
             \<and> files w' (path_join (target_dir self) ''.bower.json'')
                 = Some (File (json_dumps x
                     \<lparr>manifest_name = current_component_name self, manifest_main = [],
                      manifest_version = md5_hexdigest x []\<rparr>)))"
proof -
  let ?mp = "path_join (target_dir self) ''.bower.json''"
  let ?m = "\<lparr>manifest_name = current_component_name self, manifest_main = [],
                      manifest_version = md5_hexdigest x []\<rparr>"
  note cls = no_inclusions_classified [OF assms(1), of x]
  from assure_target_dir_ok [OF assms(3)] obtain w1 where
    a: "assure_target_dir self w = Inr w1"
    and fr: "\<forall>q. q \<noteq> target_dir self \<longrightarrow> files w1 q = files w q"
    by blast
  have "?mp \<noteq> target_dir self" by (rule path_join_neq) (simp_all add: startswith_def)
  with fr have same: "files w1 ?mp = files w ?mp" by simp
  from is_link_cong [OF same] assms(4) have nl: "\<not> is_link w1 ?mp" by simp
  from same assms(5) have nd: "files w1 ?mp \<noteq> Some Dir" by simp
  let ?w' = "file_write ?mp (json_dumps x ?m)
      (w1\<lparr>files := (files w1)(?mp \<mapsto> File []), trace := trace w1 @ [OpenW ?mp]\<rparr>)"
  have wr: "write_bower_json x self ?m w1 = Inr ?w'"
    by (simp add: write_bower_json_def open_w_plain [OF nl nd])
  have "update_component x self0 name environ w = Inr (self, ?w')"
    using a cls wr assms(2)
    by (simp add: update_component_def Let_def copy_resources_by_type_def
        create_bundles_by_type_def)
  moreover have "files ?w' ?mp = Some (File (json_dumps x ?m))"
    by (simp add: files_file_write)
  ultimately show ?thesis using cls by blast
qed


theorem no_inclusions_empty_manifest_witness:
  "get_resources_by_type toy_externals bare_environ = Inr []
   \<and> map_sum id (\<lambda>(self, w). files w ''/out/bowerstatic_bundle_bare/.bower.json'')
       (update_component toy_externals start_recipe ''bare'' bare_environ bare_world)
     = Inr (Some (File ''bowerstatic_bundle_bare||''))"
proof -
  let ?self = "start_recipe\<lparr>current_component_name :=
                   BUNDLE_DIR_NAME @ ''_'' @ replace_char (CHR ''.'') (CHR ''_'') ''bare''\<rparr>"
  have dir: "target_dir ?self = ''/out/bowerstatic_bundle_bare''"
    by (simp add: target_dir_def start_recipe_def eval_strings BUNDLE_DIR_NAME_def
        replace_char_def)
  have mp: "path_join ''/out/bowerstatic_bundle_bare'' ''.bower.json''
      = ''/out/bowerstatic_bundle_bare/.bower.json''"
    by (simp add: eval_strings)
  have name: "current_component_name ?self = ''bowerstatic_bundle_bare''"
    by (simp add: BUNDLE_DIR_NAME_def replace_char_def)
  have json: "json_dumps toy_externals
      \<lparr>manifest_name = ''bowerstatic_bundle_bare'', manifest_main = [],
       manifest_version = md5_hexdigest toy_externals []\<rparr> = ''bowerstatic_bundle_bare||''"
    by (simp add: toy_externals_def)
  have "get_resources_by_type toy_externals bare_environ = Inr []
       \<and> (\<exists>w'. update_component toy_externals start_recipe ''bare'' bare_environ bare_world
                 = Inr (?self, w')
             \<and> files w' (path_join (target_dir ?self) ''.bower.json'')
                 = Some (File (json_dumps toy_externals
                     \<lparr>manifest_name = current_component_name ?self, manifest_main = [],
                      manifest_version = md5_hexdigest toy_externals []\<rparr>)))"
    by (rule no_inclusions_empty_manifest [OF _ refl])
      (simp_all add: bare_environ_def bare_world_def is_link_def)
  then show ?thesis unfolding dir mp name json by auto
qed

lemma bundle_resources_Cons_file:
  "is_file w (path r) \<Longrightarrow>
   bundle_resources x self e h (r # rs) (m, w) =
     (case (if e = ''.css'' then copy_linked_resources self (file_content w (path r)) (path r) w
            else Inr (file_content w (path r), w)) of
        Inl err \<Rightarrow> Inl err
      | Inr (c1, w1) \<Rightarrow>
          bundle_resources x self e h rs
            (m @ (case map_of (MINIFIERS x) e of Some minify \<Rightarrow> minify c1 | None \<Rightarrow> c1),
             file_write h [CHR 0x0A] (file_write h
               (case map_of (MINIFIERS x) e of Some minify \<Rightarrow> minify c1 | None \<Rightarrow> c1) w1)))"
  by (auto simp: read_file_plain Let_def split: sum.splits)

declare bundle_resources.simps(2) [simp del]

lemma copy_linked_resources_not_IOError:
  "copy_linked_resources self c p w \<noteq> Inl (IOError q)"
  by (simp add: copy_linked_resources_def link_resources_not_IOError)

lemma staging_frame:
  assumes "(if e = ''.css'' then copy_linked_resources self c p w else Inr (c, w)) = Inr (c1, w1)"
    and "startswith h (target_dir self)" and "\<not> startswith q (target_dir self)"
  shows "files (file_write h s' (file_write h s w1)) q = files w q"
proof -
  from assms(2,3) have "q \<noteq> h" by auto
  moreover have "files w1 q = files w q"
  proof (cases "e = ''.css''")
    case True
    with assms(1) have "copy_linked_resources self c p w = Inr (c1, w1)" by simp
    from assms(3) staged_target_prefix [of self]
    have "q \<notin> staged_target self ` set (findall_url c)" by auto
    with copy_linked_resources_Inr [OF \<open>copy_linked_resources self c p w = Inr (c1, w1)\<close>]
    show ?thesis by blast
  next
    case False
    with assms(1) show ?thesis by simp
  qed
  ultimately show ?thesis by (simp add: files_file_write)
qed

text \<open>A loop over resources that returns has read regular files only.\<close>

lemma bundle_resources_Inr_files:
  assumes "bundle_resources x self e h rs (m, w) = Inr res"
    and "\<forall>r\<in>set rs. \<not> startswith (path r) (target_dir self) \<and> \<not> is_link w (path r)"
    and "startswith h (target_dir self)"
  shows "\<forall>r\<in>set rs. is_file w (path r)"
  using assms
proof (induction rs arbitrary: m w)
  case Nil
  then show ?case by simp
next
  case (Cons r rs)
  have isf: "is_file w (path r)"
  proof (rule ccontr)
    assume "\<not> is_file w (path r)"
    with Cons.prems(2) have "read_file w (path r) = Inl (IOError (path r))"
      by (simp add: read_file_missing)
    with Cons.prems(1) show False by (simp add: bundle_resources.simps(2))
  qed
  from Cons.prems(1) obtain c1 w1 where
    st: "(if e = ''.css'' then copy_linked_resources self (file_content w (path r)) (path r) w
            else Inr (file_content w (path r), w)) = Inr (c1, w1)"
    by (auto simp: bundle_resources_Cons_file [OF isf] split: sum.splits)
  let ?t = "case map_of (MINIFIERS x) e of Some minify \<Rightarrow> minify c1 | None \<Rightarrow> c1"
  let ?w2 = "file_write h [CHR 0x0A] (file_write h ?t w1)"
  from Cons.prems(1) st have run: "bundle_resources x self e h rs (m @ ?t, ?w2) = Inr res"
    by (simp add: bundle_resources_Cons_file [OF isf])
  have same: "files ?w2 (path r') = files w (path r')" if "r' \<in> set rs" for r'
    using staging_frame [OF st Cons.prems(3)] Cons.prems(2) that by simp
  have "\<forall>r\<in>set rs. \<not> startswith (path r) (target_dir self) \<and> \<not> is_link ?w2 (path r)"
  proof
    fix r' assume r': "r' \<in> set rs"
    from is_link_cong [OF same [OF r']] Cons.prems(2) r'
    show "\<not> startswith (path r') (target_dir self) \<and> \<not> is_link ?w2 (path r')" by simp
  qed
  from Cons.IH [OF run this Cons.prems(3)] have "\<forall>r\<in>set rs. is_file ?w2 (path r)" .
  with same is_file_cong have "\<forall>r\<in>set rs. is_file w (path r)" by metis
  with isf show ?case by simp
qed

text \<open>A loop over regular files outside the output directory raises no \<open>IOError\<close>.\<close>

lemma bundle_resources_not_IOError:
  assumes "\<forall>r\<in>set rs. is_file w (path r) \<and> \<not> startswith (path r) (target_dir self)"
    and "startswith h (target_dir self)"
  shows "bundle_resources x self e h rs (m, w) \<noteq> Inl (IOError q)"
  using assms
proof (induction rs arbitrary: m w)
  case Nil
  then show ?case by simp
next
  case (Cons r rs)
  from Cons.prems(1) have isf: "is_file w (path r)" by simp
  show ?case
  proof (cases "if e = ''.css'' then copy_linked_resources self (file_content w (path r)) (path r) w
            else Inr (file_content w (path r), w)")
    case (Inl err)
    then have "err \<noteq> IOError q"
      using copy_linked_resources_not_IOError [of self "file_content w (path r)" "path r" w q]
      by (auto split: if_splits)
    with Inl show ?thesis by (simp add: bundle_resources_Cons_file [OF isf])
  next
    case (Inr res)
    obtain c1 w1 where res: "res = (c1, w1)" by (cases res)
    let ?t = "case map_of (MINIFIERS x) e of Some minify \<Rightarrow> minify c1 | None \<Rightarrow> c1"
    let ?w2 = "file_write h [CHR 0x0A] (file_write h ?t w1)"
    note st = Inr [unfolded res]
    have same: "files ?w2 (path r') = files w (path r')" if "r' \<in> set rs" for r'
      using staging_frame [OF st Cons.prems(2)] Cons.prems(1) that by simp
    have "\<forall>r\<in>set rs. is_file ?w2 (path r) \<and> \<not> startswith (path r) (target_dir self)"
    proof
      fix r' assume r': "r' \<in> set rs"
      from is_file_cong [OF same [OF r']] Cons.prems(1) r'
      show "is_file ?w2 (path r') \<and> \<not> startswith (path r') (target_dir self)" by simp
    qed
    from Cons.IH [OF this Cons.prems(2)] st show ?thesis
      by (simp add: bundle_resources_Cons_file [OF isf])
  qed
qed

text \<open>One item of the dictionary that is bundled, processed with success.\<close>

lemma bundle_item_step:
  assumes sep: "separate_inputs self w ((e, rs) # d)"
    and e: "e \<in> set BUNDLE_EXTENSIONS"
    and op: "open_w (bundle_path self e) w = Inr (h, w1)"
    and inner: "bundle_resources x self e h rs (m, w1) = Inr (m1, w2)"
  shows "\<forall>r\<in>set rs. is_file w (path r)"
    and "separate_inputs self w2 d"
    and "\<forall>q. \<not> startswith q (target_dir self) \<longrightarrow> files w2 q = files w q"
proof -
  let ?h = "bundle_path self e"
  note s = separate_inputs_Cons [OF sep]
  have nl: "\<not> is_link w ?h" by (rule separate_inputsD(3) [OF sep e])
  have "files w ?h \<noteq> Some Dir"
    using open_w_Dir [of w ?h] op by auto
  from open_w_plain [OF nl this] op have h: "h = ?h"
    and w1: "w1 = w\<lparr>files := (files w)(?h \<mapsto> File []), trace := trace w @ [OpenW ?h]\<rparr>"
    by simp_all
  have pre: "startswith h (target_dir self)" unfolding h by (rule bundle_path_prefix [OF e])
  have out1: "files w1 q = files w q" if "\<not> startswith q (target_dir self)" for q
    using that pre by (auto simp: w1 h)
  have same1: "files w1 (path r) = files w (path r)" if "r \<in> set rs" for r
    using s(2) [OF e] that by (intro out1) (auto dest: separate_resourceD(1))
  have sep1: "separate_resource self w1 e r" if "r \<in> set rs" for r
    using separate_resource_cong [OF same1 [OF that]] s(2) [OF e] that by simp
  have "\<forall>r\<in>set rs. \<not> startswith (path r) (target_dir self) \<and> \<not> is_link w1 (path r)"
    using sep1 by (auto dest: separate_resourceD)
  from bundle_resources_Inr_files [OF inner this pre]
  have files1: "\<forall>r\<in>set rs. is_file w1 (path r)" .
  with same1 is_file_cong show files: "\<forall>r\<in>set rs. is_file w (path r)" by metis
  from files1 sep1 have res1: "\<forall>r\<in>set rs. is_file w1 (path r) \<and> separate_resource self w1 e r"
    by simp
  have h1: "files w1 h = Some (File [])" by (simp add: w1 h)
  note fr = bundle_resources_frame [OF inner res1 h e h1]
  show out2: "\<forall>q. \<not> startswith q (target_dir self) \<longrightarrow> files w2 q = files w q"
    using fr(3) out1 by simp
  have links2: "\<forall>e'\<in>set BUNDLE_EXTENSIONS. \<not> is_link w2 (bundle_path self e')"
  proof
    fix e' assume e': "e' \<in> set BUNDLE_EXTENSIONS"
    show "\<not> is_link w2 (bundle_path self e')"
    proof (cases "e' = e")
      case True
      with fr(2) h show ?thesis by (simp add: is_link_def)
    next
      case False
      then have "bundle_path self e' \<noteq> ?h" by (auto dest: bundle_path_inject)
      with fr(4) [OF e' False] have "files w2 (bundle_path self e') = files w (bundle_path self e')"
        by (simp add: w1)
      from is_link_cong [OF this] separate_inputsD(3) [OF sep e'] show ?thesis by simp
    qed
  qed
  from inputs_transfer(1) [OF s(3) out2 links2] show "separate_inputs self w2 d" .
qed

lemma open_w_error: "open_w p w = Inl err \<Longrightarrow> err = IOError p"
  by (auto simp: open_w_def split: option.splits entry.splits)

text \<open>A run of the builder that returns has found every resource it bundles readable.\<close>

lemma bundle_items_Inr_readable:
  assumes "bundle_items x self d (m, names, w) = Inr res" and "separate_inputs self w d"
  shows "readable_inputs w d"
  using assms
proof (induction d arbitrary: m names w)
  case Nil
  then show ?case by (simp add: readable_inputs_def)
next
  case (Cons item d)
  obtain e rs where item: "item = (e, rs)" by (cases item)
  note sep = Cons.prems(2) [unfolded item]
  show ?case
  proof (cases "e \<in> set BUNDLE_EXTENSIONS")
    case False
    with Cons.prems(1) item have "bundle_items x self d (m, names, w) = Inr res"
      by (simp add: bundle_items_skip)
    from Cons.IH [OF this separate_inputs_Cons(3) [OF sep]] False item show ?thesis
      by (simp add: readable_inputs_def)
  next
    case True
    with Cons.prems(1) item obtain h w1 m1 w2 where
      op: "open_w (bundle_path self e) w = Inr (h, w1)"
      and inner: "bundle_resources x self e h rs (m, w1) = Inr (m1, w2)"
      and rest: "bundle_items x self d (m1, names @ [''bundle'' @ e], w2) = Inr res"
      by (auto simp: bundle_items_eligible split: sum.splits)
    note step = bundle_item_step [OF sep True op inner]
    from Cons.IH [OF rest step(2)] have rd2: "readable_inputs w2 d" .
    have "is_file w (path r)"
      if "(e', rs') \<in> set d" "e' \<in> set BUNDLE_EXTENSIONS" "r \<in> set rs'" for e' rs' r
    proof -
      from separate_inputsD(2) [OF separate_inputs_Cons(3) [OF sep] that]
      have "\<not> startswith (path r) (target_dir self)" by (rule separate_resourceD(1))
      with step(3) have "files w2 (path r) = files w (path r)" by simp
      from is_file_cong [OF this] readable_inputsD [OF rd2 that] show ?thesis by simp
    qed
    with step(1) item show ?thesis
      by (auto simp: readable_inputs_def list_all_iff)
  qed
qed

text \<open>On readable inputs an \<open>IOError\<close> of the builder names a bundle it could not open.\<close>

lemma bundle_items_IOError:
  assumes "bundle_items x self d (m, names, w) = Inl (IOError q)"
    and "separate_inputs self w d" and "readable_inputs w d"
  shows "q \<in> bundle_path self ` set BUNDLE_EXTENSIONS"
  using assms
proof (induction d arbitrary: m names w)
  case Nil
  then show ?case by simp
next
  case (Cons item d)
  obtain e rs where item: "item = (e, rs)" by (cases item)
  note sep = Cons.prems(2) [unfolded item]
  note rd = readable_inputs_Cons [OF Cons.prems(3) [unfolded item]]
  show ?case
  proof (cases "e \<in> set BUNDLE_EXTENSIONS")
    case False
    with Cons.prems(1) item have "bundle_items x self d (m, names, w) = Inl (IOError q)"
      by (simp add: bundle_items_skip)
    from Cons.IH [OF this separate_inputs_Cons(3) [OF sep] rd(2)] show ?thesis .
  next
    case True
    show ?thesis
    proof (cases "open_w (bundle_path self e) w")
      case (Inl err)
      with Cons.prems(1) item True open_w_error [OF Inl] show ?thesis
        by (auto simp: bundle_items_eligible)
    next
      case (Inr hw)
      obtain h w1 where hw: "hw = (h, w1)" by (cases hw)
      note op = Inr [unfolded hw]
      have nl: "\<not> is_link w (bundle_path self e)" by (rule separate_inputsD(3) [OF sep True])
      have "files w (bundle_path self e) \<noteq> Some Dir"
        using open_w_Dir [of w "bundle_path self e"] op by auto
      from open_w_plain [OF nl this] op have h: "h = bundle_path self e"
        and w1: "w1 = w\<lparr>files := (files w)(bundle_path self e \<mapsto> File []),
                      trace := trace w @ [OpenW (bundle_path self e)]\<rparr>"
        by simp_all
      have pre: "startswith h (target_dir self)" unfolding h by (rule bundle_path_prefix [OF True])
      have res1: "\<forall>r\<in>set rs. is_file w1 (path r) \<and> \<not> startswith (path r) (target_dir self)"
      proof
        fix r assume r: "r \<in> set rs"
        from separate_inputs_Cons(2) [OF sep True] r
        have out: "\<not> startswith (path r) (target_dir self)" by (auto dest: separate_resourceD(1))
        with pre have "path r \<noteq> h" by auto
        then have "files w1 (path r) = files w (path r)" by (simp add: w1 h)
        from is_file_cong [OF this] rd(1) [OF True] r out
        show "is_file w1 (path r) \<and> \<not> startswith (path r) (target_dir self)" by simp
      qed
      show ?thesis
      proof (cases "bundle_resources x self e h rs (m, w1)")
        case (Inl err)
        with bundle_resources_not_IOError [OF res1 pre, of x e m q] Cons.prems(1) item True op
        show ?thesis by (simp add: bundle_items_eligible)
      next
        case (Inr mw)
        obtain m1 w2 where mw: "mw = (m1, w2)" by (cases mw)
        note inner = Inr [unfolded mw]
        from Cons.prems(1) item True op inner
        have rest: "bundle_items x self d (m1, names @ [''bundle'' @ e], w2) = Inl (IOError q)"
          by (simp add: bundle_items_eligible)
        note step = bundle_item_step [OF sep True op inner]
        have links2: "\<forall>e'\<in>set BUNDLE_EXTENSIONS. \<not> is_link w2 (bundle_path self e')"
          using separate_inputsD(3) [OF step(2)] by simp
        from inputs_transfer(2) [OF separate_inputs_Cons(3) [OF sep] step(3) links2 rd(2)]
        have "readable_inputs w2 d" .
        from Cons.IH [OF rest step(2) this] show ?thesis .
      qed
    qed
  qed
qed

lemma create_bundles_by_type_Inl:
  "create_bundles_by_type x self d w = Inl err \<longleftrightarrow> bundle_items x self d ([], [], w) = Inl err"
  by (auto simp: create_bundles_by_type_def split: sum.splits)

text \<open>
  C8: let the inputs of the bundle builder be separate from its outputs. If a resource of
  a bundled extension is not a regular file (it is missing or a directory) the builder
  returns an error, and the build of the component that ran it returns this error: no
  manifest is written. If every such resource is a regular file, the builder raises no
  \<open>IOError\<close> for the path of a resource.
\<close>

theorem unreadable_resource_aborts_build:
  assumes "separate_inputs self w d"
  shows "((\<exists>e rs r. (e, rs) \<in> set d \<and> e \<in> set BUNDLE_EXTENSIONS \<and> r \<in> set rs
             \<and> \<not> is_file w (path r))
          \<longrightarrow> (\<exists>err. create_bundles_by_type x self d w = Inl err))
       \<and> (\<forall>err self0 name environ w0 w1 copied.
            self = self0\<lparr>current_component_name :=
                     BUNDLE_DIR_NAME @ ''_'' @ replace_char (CHR ''.'') (CHR ''_'') name\<rparr> \<longrightarrow>
            assure_target_dir self w0 = Inr w1 \<longrightarrow>
            get_resources_by_type x environ = Inr d \<longrightarrow>
            copy_resources_by_type self d w1 = Inr (copied, w) \<longrightarrow>
            create_bundles_by_type x self d w = Inl err \<longrightarrow>
            update_component x self0 name environ w0 = Inl err)
       \<and> (readable_inputs w d \<longrightarrow>
            (\<forall>e rs r. (e, rs) \<in> set d \<longrightarrow> e \<in> set BUNDLE_EXTENSIONS \<longrightarrow> r \<in> set rs \<longrightarrow>
               create_bundles_by_type x self d w \<noteq> Inl (IOError (path r))))"
proof (intro conjI impI allI)
  assume "\<exists>e rs r. (e, rs) \<in> set d \<and> e \<in> set BUNDLE_EXTENSIONS \<and> r \<in> set rs
             \<and> \<not> is_file w (path r)"
  then obtain e rs r where bad: "(e, rs) \<in> set d" "e \<in> set BUNDLE_EXTENSIONS" "r \<in> set rs"
    "\<not> is_file w (path r)" by blast
  show "\<exists>err. create_bundles_by_type x self d w = Inl err"
  proof (cases "bundle_items x self d ([], [], w)")
    case (Inl err)
    then show ?thesis by (auto simp: create_bundles_by_type_Inl)
  next
    case (Inr res)
    from bundle_items_Inr_readable [OF Inr assms] readable_inputsD [OF _ bad(1,2,3)] bad(4)
    show ?thesis by blast
  qed
next
  fix err self0 name environ w0 w1 copied
  assume "self = self0\<lparr>current_component_name :=
                     BUNDLE_DIR_NAME @ ''_'' @ replace_char (CHR ''.'') (CHR ''_'') name\<rparr>"
    and "assure_target_dir self w0 = Inr w1"
    and "get_resources_by_type x environ = Inr d"
    and "copy_resources_by_type self d w1 = Inr (copied, w)"
    and "create_bundles_by_type x self d w = Inl err"
  then show "update_component x self0 name environ w0 = Inl err"
    by (simp add: update_component_def Let_def)
next
  fix e rs r
  assume rd: "readable_inputs w d" and in_d: "(e, rs) \<in> set d" "e \<in> set BUNDLE_EXTENSIONS"
    "r \<in> set rs"
  show "create_bundles_by_type x self d w \<noteq> Inl (IOError (path r))"
  proof
    assume "create_bundles_by_type x self d w = Inl (IOError (path r))"
    then have "bundle_items x self d ([], [], w) = Inl (IOError (path r))"
      by (simp add: create_bundles_by_type_Inl)
    from bundle_items_IOError [OF this assms rd] obtain e' where
      "e' \<in> set BUNDLE_EXTENSIONS" "path r = bundle_path self e'" by auto
    with bundle_path_prefix [of e' self]
      separate_resourceD(1) [OF separate_inputsD(2) [OF assms in_d]]
    show False by simp
  qed
qed

lemma broken_inputs: "separate_inputs widget_recipe broken_world_ensured widget_resources"
  by (simp add: eval_strings eval_world target_dir_def widget_recipe_def
      widget_resources_def broken_world_ensured_def)

theorem unreadable_resource_aborts_build_witness:
  "(\<exists>err. create_bundles_by_type toy_externals widget_recipe widget_resources broken_world_ensured
            = Inl err
        \<and> update_component toy_externals start_recipe ''widget'' widget_environ broken_world
            = Inl err)
   \<and> create_bundles_by_type toy_externals widget_recipe widget_resources widget_world
       \<noteq> Inl (IOError ''/src/jquery/jquery.js'')"
proof -
  have self: "widget_recipe = start_recipe\<lparr>current_component_name :=
                     BUNDLE_DIR_NAME @ ''_'' @ replace_char (CHR ''.'') (CHR ''_'') ''widget''\<rparr>"
    by (simp add: widget_recipe_def start_recipe_def BUNDLE_DIR_NAME_def replace_char_def)
  have ensure: "assure_target_dir widget_recipe broken_world = Inr broken_world_ensured"
    by (simp add: assure_target_dir_def os_path_exists_def os_makedirs_def eval_follow
        eval_strings target_dir_def widget_recipe_def broken_world_def broken_world_ensured_def)
  have copy: "copy_resources_by_type widget_recipe widget_resources broken_world_ensured
      = Inr ([], broken_world_ensured)"
    by (simp add: copy_resources_by_type_def widget_resources_def RESOURCE_EXTENSIONS_def)
  have missing: "\<exists>e rs r. (e, rs) \<in> set widget_resources \<and> e \<in> set BUNDLE_EXTENSIONS \<and> r \<in> set rs
             \<and> \<not> is_file broken_world_ensured (path r)"
    by (rule exI [where x = "''.js''"], rule exI [where x = "snd (hd widget_resources)"],
        rule exI [where x = "\<lparr>package = ''widget'', path = ''/src/widget/widget.js''\<rparr>"])
      (simp add: widget_resources_def BUNDLE_EXTENSIONS_def is_file_def broken_world_ensured_def)
  note broken = unreadable_resource_aborts_build [OF broken_inputs, of toy_externals]
  from broken missing obtain err where
    err: "create_bundles_by_type toy_externals widget_recipe widget_resources broken_world_ensured
            = Inl err" by blast
  from broken self ensure widget_classified copy err
  have "update_component toy_externals start_recipe ''widget'' widget_environ broken_world = Inl err"
    by blast
  moreover
  have "(''.js'', snd (hd widget_resources)) \<in> set widget_resources"
    "''.js'' \<in> set BUNDLE_EXTENSIONS"
    "\<lparr>package = ''jquery'', path = ''/src/jquery/jquery.js''\<rparr> \<in> set (snd (hd widget_resources))"
    by (simp_all add: widget_resources_def BUNDLE_EXTENSIONS_def)
  with unreadable_resource_aborts_build [OF widget_inputs(1), of toy_externals] widget_inputs(2)
  have "create_bundles_by_type toy_externals widget_recipe widget_resources widget_world
       \<noteq> Inl (IOError (path \<lparr>package = ''jquery'', path = ''/src/jquery/jquery.js''\<rparr>))"
    by blast
  ultimately show ?thesis using err by auto
qed

declare visit.simps [simp del] visit_all.simps(2) [simp del]

lemma topo_Nil: "topo E []"
  by (simp add: topo_def)

lemma topo_snoc:
  "topo E (ns @ [n]) \<longleftrightarrow> topo E ns \<and> n \<notin> set ns \<and> E `` {n} \<subseteq> set ns"
proof
  assume t: "topo E (ns @ [n])"
  have "E `` {x} \<subseteq> set pre" if "ns = pre @ x # post" for pre x post
  proof -
    from that have "ns @ [n] = pre @ x # (post @ [n])" by simp
    with t show ?thesis unfolding topo_def by blast
  qed
  moreover from t have "E `` {n} \<subseteq> set ns" unfolding topo_def by blast
  ultimately show "topo E ns \<and> n \<notin> set ns \<and> E `` {n} \<subseteq> set ns"
    using t by (auto simp: topo_def)
next
  assume a: "topo E ns \<and> n \<notin> set ns \<and> E `` {n} \<subseteq> set ns"
  have "E `` {x} \<subseteq> set pre" if "ns @ [n] = pre @ x # post" for pre x post
  proof (cases post rule: rev_cases)
    case Nil
    with that a show ?thesis by simp
  next
    case (snoc post' y)
    with that have "ns = pre @ x # post'" by simp
    with a show ?thesis unfolding topo_def by blast
  qed
  with a show "topo E (ns @ [n])" by (auto simp: topo_def)
qed

lemma depends_Some: "map_of g n = Some ds \<Longrightarrow> depends g `` {n} = set ds"
  by (auto simp: depends_def)

lemma depends_None: "map_of g n = None \<Longrightarrow> depends g `` {n} = {}"
  by (auto simp: depends_def)

lemma visit_correct:
  "visit_pre (depends g) st acc {n} \<Longrightarrow> visit_post (depends g) st acc {n} (visit g st n acc)"
  "visit_pre (depends g) st acc (set ms) \<Longrightarrow>
   visit_post (depends g) st acc (set ms) (visit_all g st ms acc)"
proof (induction g st n acc and g st ms acc rule: visit_visit_all.induct)
  case (1 g st n acc)
  let ?E = "depends g"
  from "1.prems" have t: "topo ?E acc" and dj: "set acc \<inter> set st = {}"
    and ch: "\<forall>x\<in>set st. (x, n) \<in> ?E\<^sup>+"
    by (simp_all add: visit_pre_def)
  show ?case
  proof (cases "n \<in> set acc")
    case True
    with t dj show ?thesis by (simp add: visit.simps visit_post_def)
  next
    case nacc: False
    show ?thesis
    proof (cases "n \<in> set st")
      case True
      with ch have "(n, n) \<in> ?E\<^sup>+" by simp
      with nacc True show ?thesis by (auto simp: visit.simps visit_post_def)
    next
      case nst: False
      show ?thesis
      proof (cases "map_of g n")
        case None
        with t nacc have "topo ?E (acc @ [n])" by (simp add: topo_snoc depends_None)
        with nacc nst None dj show ?thesis by (simp add: visit.simps visit_post_def)
      next
        case (Some ds)
        have pre: "visit_pre ?E (n # st) acc (set ds)"
          unfolding visit_pre_def
        proof (intro conjI ballI)
          show "topo ?E acc" by (rule t)
          from dj nacc show "set acc \<inter> set (n # st) = {}" by simp
          fix m x assume m: "m \<in> set ds" and x: "x \<in> set (n # st)"
          from m Some have e: "(n, m) \<in> ?E" by (auto simp: depends_def)
          show "(x, m) \<in> ?E\<^sup>+"
          proof (cases "x = n")
            case True
            with e show ?thesis by simp
          next
            case False
            with x ch have "(x, n) \<in> ?E\<^sup>+" by simp
            from this e show ?thesis by (rule trancl.trancl_into_trancl)
          qed
        qed
        note post = "1.IH" [OF nacc nst Some pre]
        show ?thesis
        proof (cases "visit_all g (n # st) ds acc")
          case (Inl e)
          with post obtain m c where "e = CycleError" "m \<in> set ds" "(m, c) \<in> ?E\<^sup>*" "(c, c) \<in> ?E\<^sup>+"
            by (auto simp: visit_post_def)
          moreover from \<open>m \<in> set ds\<close> Some have "(n, m) \<in> ?E" by (auto simp: depends_def)
          ultimately have "e = CycleError \<and> (\<exists>c. (n, c) \<in> ?E\<^sup>* \<and> (c, c) \<in> ?E\<^sup>+)"
            by (meson converse_rtrancl_into_rtrancl)
          with nacc nst Some Inl show ?thesis by (simp add: visit.simps visit_post_def)
        next
          case (Inr acc')
          with post obtain new where new: "acc' = acc @ new" "set new \<subseteq> ?E\<^sup>* `` set ds"
            and t': "topo ?E acc'" and sub: "set ds \<subseteq> set acc'"
            and dj': "set acc' \<inter> set (n # st) = {}"
            by (auto simp: visit_post_def)
          from dj' have n': "n \<notin> set acc'" by auto
          with t' sub have "topo ?E (acc' @ [n])" by (simp add: topo_snoc depends_Some [OF Some])
          moreover have "set (new @ [n]) \<subseteq> ?E\<^sup>* `` {n}"
          proof -
            have "?E\<^sup>* `` set ds \<subseteq> ?E\<^sup>* `` {n}"
            proof
              fix y assume "y \<in> ?E\<^sup>* `` set ds"
              then obtain m where m: "m \<in> set ds" "(m, y) \<in> ?E\<^sup>*" by auto
              from m(1) Some have "(n, m) \<in> ?E" by (auto simp: depends_def)
              with m(2) show "y \<in> ?E\<^sup>* `` {n}" by (auto intro: converse_rtrancl_into_rtrancl)
            qed
            with new(2) show ?thesis by auto
          qed
          moreover from dj' nst have "set (acc' @ [n]) \<inter> set st = {}" by auto
          ultimately have "visit_post ?E st acc {n} (Inr (acc' @ [n]))"
            using new(1) unfolding visit_post_def by (simp del: set_append) force
          with nacc nst Some Inr show ?thesis by (simp add: visit.simps)
        qed
      qed
    qed
  qed
next
  case (2 g st acc)
  then show ?case by (simp add: visit_pre_def visit_post_def)
next
  case (3 g st m ms acc)
  let ?E = "depends g"
  from "3.prems" have pre1: "visit_pre ?E st acc {m}" by (simp add: visit_pre_def)
  note post1 = "3.IH"(1) [OF pre1]
  show ?case
  proof (cases "visit g st m acc")
    case (Inl e)
    with post1 show ?thesis by (auto simp: visit_all.simps visit_post_def)
  next
    case (Inr acc1)
    with post1 obtain new1 where new1: "acc1 = acc @ new1" "set new1 \<subseteq> ?E\<^sup>* `` {m}"
      and t1: "topo ?E acc1" and m1: "m \<in> set acc1" and dj1: "set acc1 \<inter> set st = {}"
      by (auto simp: visit_post_def)
    from "3.prems" t1 dj1 have pre2: "visit_pre ?E st acc1 (set ms)" by (simp add: visit_pre_def)
    note post2 = "3.IH"(2) [OF Inr pre2]
    show ?thesis
    proof (cases "visit_all g st ms acc1")
      case (Inl e)
      with post2 Inr show ?thesis by (auto simp: visit_all.simps visit_post_def)
    next
      case (Inr acc2)
      with post2 obtain new2 where new2: "acc2 = acc1 @ new2" "set new2 \<subseteq> ?E\<^sup>* `` set ms"
        and t2: "topo ?E acc2" and m2: "set ms \<subseteq> set acc2" and dj2: "set acc2 \<inter> set st = {}"
        by (auto simp: visit_post_def)
      from new1 new2 have "acc2 = acc @ (new1 @ new2)"
        and "set (new1 @ new2) \<subseteq> ?E\<^sup>* `` set (m # ms)" by auto
      moreover from m1 m2 new2(1) have "set (m # ms) \<subseteq> set acc2" by auto
      ultimately have "visit_post ?E st acc (set (m # ms)) (Inr acc2)"
        using t2 dj2 unfolding visit_post_def by (simp del: set_append)
      with \<open>visit g st m acc = Inr acc1\<close> Inr show ?thesis by (simp add: visit_all.simps)
    qed
  qed
qed

lemma topo_trancl:
  assumes "topo E ns" and "(x, m) \<in> E\<^sup>+" and "ns = pre @ x # post"
  shows "m \<in> set pre"
  using assms(2,3)
proof (induction arbitrary: pre post rule: trancl_induct)
  case (base y)
  with assms(1) show ?case unfolding topo_def by blast
next
  case (step y z)
  from step.IH [OF step.prems] obtain p1 p2 where p: "pre = p1 @ y # p2"
    by (auto simp: in_set_conv_decomp)
  with step.prems have "ns = p1 @ y # (p2 @ x # post)" by simp
  with assms(1) step.hyps(2) have "z \<in> set p1" unfolding topo_def by blast
  with p show ?case by simp
qed

lemma topo_closed:
  assumes "topo E ns" and "x \<in> set ns" and "(x, y) \<in> E\<^sup>*"
  shows "y \<in> set ns"
  using assms(3,2)
proof (induction rule: rtrancl_induct)
  case base
  then show ?case .
next
  case (step y z)
  from step.IH [OF step.prems] obtain pre post where "ns = pre @ y # post"
    by (auto simp: in_set_conv_decomp)
  with assms(1) step.hyps(2) show ?case unfolding topo_def by fastforce
qed

lemma topo_no_cycle:
  assumes "topo E ns" and "x \<in> set ns"
  shows "(x, x) \<notin> E\<^sup>+"
proof
  assume c: "(x, x) \<in> E\<^sup>+"
  from assms(2) obtain pre post where d: "ns = pre @ x # post"
    by (auto simp: in_set_conv_decomp)
  from topo_trancl [OF assms(1) c d] d assms(1) show False by (simp add: topo_def)
qed

lemma topo_index:
  assumes "topo E ns" and "i < length ns" and "(ns ! i, m) \<in> E\<^sup>+"
  shows "\<exists>j<i. ns ! j = m"
proof -
  from assms(2) have "ns = take i ns @ ns ! i # drop (Suc i) ns"
    by (rule id_take_nth_drop)
  from topo_trancl [OF assms(1,3) this] obtain j where "j < length (take i ns)" "take i ns ! j = m"
    by (auto simp: in_set_conv_nth)
  then show ?thesis by auto
qed

text \<open>
  C6, against the order modelled from the spec: when a cycle of the dependency relation
  is reachable from the given nodes, the order fails with \<open>CycleError\<close>; otherwise it
  returns a sequence that holds the given nodes and the nodes reachable from them, each
  once, with every node a node depends on, directly or not, at a strictly earlier
  position. The function is total, so it returns in both cases.
\<close>

theorem topological_sort_correct:
  "((\<exists>n\<in>(depends g)\<^sup>* `` set l. (n, n) \<in> (depends g)\<^sup>+)
      \<longrightarrow> topological_sort l g = Inl CycleError)
   \<and> (\<not> (\<exists>n\<in>(depends g)\<^sup>* `` set l. (n, n) \<in> (depends g)\<^sup>+)
      \<longrightarrow> (\<exists>out. topological_sort l g = Inr out \<and> distinct out
             \<and> set out = (depends g)\<^sup>* `` set l
             \<and> (\<forall>i<length out. \<forall>m. (out ! i, m) \<in> (depends g)\<^sup>+ \<longrightarrow> (\<exists>j<i. out ! j = m))))"
proof -
  let ?E = "depends g"
  have pre: "visit_pre ?E [] [] (set l)" by (simp add: visit_pre_def topo_Nil)
  note post = visit_correct(2) [OF pre, folded topological_sort_def]
  have ok: "distinct out \<and> set out = ?E\<^sup>* `` set l
             \<and> (\<forall>i<length out. \<forall>m. (out ! i, m) \<in> ?E\<^sup>+ \<longrightarrow> (\<exists>j<i. out ! j = m))
             \<and> \<not> (\<exists>n\<in>?E\<^sup>* `` set l. (n, n) \<in> ?E\<^sup>+)"
    if res: "topological_sort l g = Inr out" for out
  proof -
    from post res have t: "topo ?E out" and sub: "set out \<subseteq> ?E\<^sup>* `` set l"
      and sup: "set l \<subseteq> set out"
      by (auto simp: visit_post_def)
    have "?E\<^sup>* `` set l \<subseteq> set out"
      using sup topo_closed [OF t] by blast
    with sub have eq: "set out = ?E\<^sup>* `` set l" by blast
    moreover from t have "distinct out" by (simp add: topo_def)
    moreover have "\<forall>i<length out. \<forall>m. (out ! i, m) \<in> ?E\<^sup>+ \<longrightarrow> (\<exists>j<i. out ! j = m)"
      using topo_index [OF t] by blast
    moreover have "\<not> (\<exists>n\<in>?E\<^sup>* `` set l. (n, n) \<in> ?E\<^sup>+)"
      using topo_no_cycle [OF t] eq by blast
    ultimately show ?thesis by blast
  qed
  have bad: "e = CycleError \<and> (\<exists>n\<in>?E\<^sup>* `` set l. (n, n) \<in> ?E\<^sup>+)"
    if res: "topological_sort l g = Inl e" for e
    using post res by (auto simp: visit_post_def)
  show ?thesis
  proof (cases "topological_sort l g")
    case (Inl e)
    with bad [OF Inl] show ?thesis by simp
  next
    case (Inr out)
    with ok [OF Inr] show ?thesis by simp
  qed
qed


theorem topological_sort_correct_witness:
  "topological_sort [0::nat] [(0, [1]), (1, [0])] = Inl CycleError
   \<and> (\<exists>out. topological_sort [2::nat, 1] [(2, [1])] = Inr out \<and> distinct out
         \<and> set out = (depends [(2, [1])])\<^sup>* `` {2, 1})"
proof -
  let ?c = "[(0::nat, [1::nat]), (1, [0])]"
  let ?a = "[(2::nat, [1::nat])]"
  have "(0, 1) \<in> depends ?c" and "(1, 0) \<in> depends ?c" by (simp_all add: depends_def)
  then have "(0, 0) \<in> (depends ?c)\<^sup>+" by (rule trancl_into_trancl2 [OF _ r_into_trancl])
  then have cyclic: "\<exists>n\<in>(depends ?c)\<^sup>* `` set [0]. (n, n) \<in> (depends ?c)\<^sup>+" by auto
  have "depends ?a = {(2, 1)}"
    by (auto simp: depends_def split: if_splits)
  moreover have "a = 2 \<and> b = 1" if "(a, b) \<in> {(2::nat, 1::nat)}\<^sup>+" for a b
    using that by (induction rule: trancl_induct) auto
  ultimately have "(depends ?a)\<^sup>+ \<subseteq> {(2, 1)}" by auto
  then have acyclic: "\<not> (\<exists>n\<in>(depends ?a)\<^sup>* `` set [2, 1]. (n, n) \<in> (depends ?a)\<^sup>+)"
    by auto
  from topological_sort_correct [of ?c "[0]"] cyclic
  have r1: "topological_sort [0] ?c = Inl CycleError" by blast
  from topological_sort_correct [of ?a "[2, 1]"] acyclic
  have r2: "\<exists>out. topological_sort [2, 1] ?a = Inr out \<and> distinct out
         \<and> set out = (depends ?a)\<^sup>* `` set [2, 1]" by blast
  have "set [2::nat, 1] = {2, 1}" by simp
  with r1 r2 show ?thesis by (simp only:)
qed





















text \<open>
  After a run of the rewriter every staged path links to the file a reference names, beside
  the stylesheet: the one of the last reference staged there.
\<close>

lemma link_resources_links:
  "link_resources self p toks (c, w) = Inr (c', w') \<Longrightarrow>
   \<forall>tok\<in>set toks. \<exists>tok'\<in>set toks.
     staged_target self tok' = staged_target self tok
   \<and> files w' (staged_target self tok)
       = Some (Link (path_join (dirname p) (sanitize_filename tok')))"
proof (induction toks arbitrary: c w)
  case Nil
  then show ?case by simp
next
  case (Cons tok toks)
  let ?t = "staged_target self tok"
  let ?w = "stage (path_join (dirname p) (sanitize_filename tok)) ?t w"
  from Cons.prems
  have run: "link_resources self p toks (rewrite_step c tok, ?w) = Inr (c', w')"
    by (simp add: link_resources_Cons split: if_splits)
  note IH = Cons.IH [OF run]
  have "\<exists>tok'\<in>set (tok # toks). staged_target self tok' = ?t
      \<and> files w' ?t = Some (Link (path_join (dirname p) (sanitize_filename tok')))"
  proof (cases "?t \<in> staged_target self ` set toks")
    case True
    then obtain u where u: "u \<in> set toks" "staged_target self u = ?t" by auto
    with IH obtain v where "v \<in> set toks" "staged_target self v = staged_target self u"
      "files w' (staged_target self u)
         = Some (Link (path_join (dirname p) (sanitize_filename v)))" by blast
    with u(2) show ?thesis by auto
  next
    case False
    with link_resources_Inr [OF run] have "files w' ?t = files ?w ?t" by blast
    then show ?thesis by (simp add: stage_def)
  qed
  moreover from IH have "\<forall>u\<in>set toks. \<exists>tok'\<in>set (tok # toks).
      staged_target self tok' = staged_target self u
    \<and> files w' (staged_target self u)
        = Some (Link (path_join (dirname p) (sanitize_filename tok')))"
    by auto
  ultimately show ?case by simp
qed

text \<open>
  C2, amended: when the rewriter succeeds on a stylesheet, every referenced file is staged:
  the base name of its sanitised filename, in the output directory, links to the sanitised
  filename beside the stylesheet (for references with one base name, to one of them). The
  returned content is the stylesheet in which, for each reference in turn, the leftmost
  occurrence of the sanitised filename is replaced by its base name. The quotes and the
  query string or fragment are no part of the sanitised filename, so they stay: for a
  stylesheet with one reference, whose token is \<open>l @ f @ r\<close> with \<open>f\<close> the sanitised filename
  (\<open>l\<close> the opening quote if there is one, \<open>r\<close> the query string or fragment and the closing
  quote) and whose leftmost occurrence of \<open>f\<close> is the one in the token, the content returned
  has \<open>l @ basename f @ r\<close> between the parentheses.
\<close>

theorem rewriter_keeps_suffix:
  assumes "copy_linked_resources self content p w = Inr (content', w')"
  shows "content' = foldl (\<lambda>c tok. replace_1 c (sanitize_filename tok)
                                      (basename (sanitize_filename tok)))
                      content (findall_url content)
       \<and> (\<forall>tok\<in>set (findall_url content). \<exists>tok'\<in>set (findall_url content).
            basename (sanitize_filename tok') = basename (sanitize_filename tok)
          \<and> files w' (path_join (target_dir self) (basename (sanitize_filename tok)))
              = Some (Link (path_join (dirname p) (sanitize_filename tok'))))
       \<and> (\<forall>pre l f r post.
            content = pre @ ''url('' @ l @ f @ r @ '')'' @ post
          \<longrightarrow> findall_url content = [l @ f @ r]
          \<longrightarrow> sanitize_filename (l @ f @ r) = f
          \<longrightarrow> str_find content f = Some (length (pre @ ''url('' @ l))
          \<longrightarrow> content' = pre @ ''url('' @ l @ basename f @ r @ '')'' @ post)"
proof (intro conjI allI impI)
  from assms have run: "link_resources self p (findall_url content) (content, w) = Inr (content', w')"
    by (simp add: copy_linked_resources_def)
  have step: "rewrite_step = (\<lambda>c tok. replace_1 c (sanitize_filename tok)
                                        (basename (sanitize_filename tok)))"
    by (intro ext) (simp add: rewrite_step_def)
  from link_resources_Inr [OF run] step
  show "content' = foldl (\<lambda>c tok. replace_1 c (sanitize_filename tok)
                                     (basename (sanitize_filename tok)))
                     content (findall_url content)"
    by simp
  show "\<forall>tok\<in>set (findall_url content). \<exists>tok'\<in>set (findall_url content).
            basename (sanitize_filename tok') = basename (sanitize_filename tok)
          \<and> files w' (path_join (target_dir self) (basename (sanitize_filename tok)))
              = Some (Link (path_join (dirname p) (sanitize_filename tok')))"
  proof
    fix tok assume "tok \<in> set (findall_url content)"
    with link_resources_links [OF run]
    obtain tok' where t: "tok' \<in> set (findall_url content)"
      "staged_target self tok' = staged_target self tok"
      "files w' (staged_target self tok)
         = Some (Link (path_join (dirname p) (sanitize_filename tok')))" by blast
    from t(2) have "basename (staged_target self tok') = basename (staged_target self tok)"
      by simp
    then have "basename (sanitize_filename tok') = basename (sanitize_filename tok)"
      by (simp only: basename_staged_target)
    with t(1,3) show "\<exists>tok'\<in>set (findall_url content).
            basename (sanitize_filename tok') = basename (sanitize_filename tok)
          \<and> files w' (path_join (target_dir self) (basename (sanitize_filename tok)))
              = Some (Link (path_join (dirname p) (sanitize_filename tok')))"
      by (auto simp: staged_target_def)
  qed
next
  fix pre l f r post
  assume shape: "content = pre @ ''url('' @ l @ f @ r @ '')'' @ post"
    and toks: "findall_url content = [l @ f @ r]"
    and name: "sanitize_filename (l @ f @ r) = f"
    and leftmost: "str_find content f = Some (length (pre @ ''url('' @ l))"
  let ?a = "pre @ ''url('' @ l" and ?b = "r @ '')'' @ post"
  have c: "content = ?a @ f @ ?b" using shape by simp
  from copy_linked_resources_single(1) [OF toks assms] name
  have r: "content' = replace_1 content f (basename f)"
    by (simp add: rewrite_step_def)
  have "replace_1 (?a @ f @ ?b) f (basename f) = ?a @ basename f @ ?b"
    by (rule replace_1_find) (use leftmost c in simp_all)
  with r c show "content' = pre @ ''url('' @ l @ basename f @ r @ '')'' @ post" by simp
qed

theorem rewriter_keeps_suffix_witness:
  "map_sum id (\<lambda>(c, w). (c, files w ''/out/bowerstatic_bundle_widget/logo.png''))
     (copy_linked_resources widget_recipe logo_css ''/src/widget/logo.css'' css_world)
   = Inr (''a{b:url('' @ [CHR 0x22] @ ''logo.png?v=2'' @ [CHR 0x22] @ '')}'',
          Some (Link ''/src/widget/icons/logo.png''))"
proof -
  let ?w = "stage ''/src/widget/icons/logo.png'' ''/out/bowerstatic_bundle_widget/logo.png'' css_world"
  let ?c = "''a{b:url('' @ [CHR 0x22] @ ''logo.png?v=2'' @ [CHR 0x22] @ '')}''"
  let ?r = "''?v=2'' @ [CHR 0x22]"
  let ?tok = "[CHR 0x22] @ ''icons/logo.png'' @ ?r"
  have run: "copy_linked_resources widget_recipe logo_css ''/src/widget/logo.css'' css_world
      = Inr (?c, ?w)"
    by (simp add: eval_strings eval_rewriter widget_recipe_def logo_css_def css_world_def)
  have shape: "logo_css = ''a{b:'' @ ''url('' @ [CHR 0x22] @ ''icons/logo.png'' @ ?r @ '')'' @ ''}''"
    by (simp add: logo_css_def)
  have toks: "findall_url logo_css = [?tok]"
    by (simp add: logo_css_def eval_strings)
  have name: "sanitize_filename ?tok = ''icons/logo.png''"
    by (simp add: eval_strings)
  have leftmost: "str_find logo_css ''icons/logo.png'' = Some (length (''a{b:'' @ ''url('' @ [CHR 0x22]))"
    by (simp add: logo_css_def eval_strings)
  have target: "path_join (target_dir widget_recipe) (basename ''icons/logo.png'')
      = ''/out/bowerstatic_bundle_widget/logo.png''"
    by (simp add: eval_strings target_dir_def widget_recipe_def)
  have source: "path_join (dirname ''/src/widget/logo.css'') ''icons/logo.png''
      = ''/src/widget/icons/logo.png''"
    by (simp add: eval_strings)
  note all = rewriter_keeps_suffix [OF run]
  from all have staged: "\<forall>tok\<in>set (findall_url logo_css). \<exists>tok'\<in>set (findall_url logo_css).
            basename (sanitize_filename tok') = basename (sanitize_filename tok)
          \<and> files ?w (path_join (target_dir widget_recipe) (basename (sanitize_filename tok)))
              = Some (Link (path_join (dirname ''/src/widget/logo.css'') (sanitize_filename tok')))"
    by blast
  from all have "\<forall>pre l f r post.
            logo_css = pre @ ''url('' @ l @ f @ r @ '')'' @ post
          \<longrightarrow> findall_url logo_css = [l @ f @ r]
          \<longrightarrow> sanitize_filename (l @ f @ r) = f
          \<longrightarrow> str_find logo_css f = Some (length (pre @ ''url('' @ l))
          \<longrightarrow> ?c = pre @ ''url('' @ l @ basename f @ r @ '')'' @ post"
    by blast
  from this shape toks name leftmost
  have out: "?c = ''a{b:'' @ ''url('' @ [CHR 0x22] @ basename ''icons/logo.png'' @ ?r @ '')'' @ ''}''"
    by blast
  from staged have "files ?w (path_join (target_dir widget_recipe) (basename (sanitize_filename ?tok)))
      = Some (Link (path_join (dirname ''/src/widget/logo.css'') (sanitize_filename ?tok)))"
    unfolding toks by simp
  then have link: "files ?w ''/out/bowerstatic_bundle_widget/logo.png''
      = Some (Link ''/src/widget/icons/logo.png'')"
    by (simp only: name target source)
  from run link out show ?thesis by simp
qed

lemma replace_scan_absent: "str_find s old = None \<Longrightarrow> replace_scan old new s = s"
  by (induction s) (auto split: if_splits)

lemma basename_Nil: "basename [] = []"
  by (simp add: basename_def)

lemma rewrite_step_leftmost:
  "rewrite_step c tok
     = replace_leftmost c (sanitize_filename tok) (basename (sanitize_filename tok))"
proof (cases "c = []")
  case True
  then show ?thesis
    by (simp add: rewrite_step_def replace_1_def replace_leftmost_def basename_Nil)
next
  case False
  show ?thesis
  proof (cases "str_find c (sanitize_filename tok)")
    case None
    with False replace_scan_absent [OF None] show ?thesis
      by (simp add: rewrite_step_def replace_1_def replace_leftmost_def)
  next
    case (Some n)
    with False replace_scan_find [OF Some False] show ?thesis
      by (simp add: rewrite_step_def replace_1_def replace_leftmost_def)
  qed
qed

text \<open>
  C10, as stated, fails: in \<^verbatim>\<open>a{b:url(i/x.png)} c{d:url(i/x.png)}\<close> the sanitised filename
  of the second reference occurs earlier in the content, in the first reference, where
  its leftmost occurrence is. The replacement made for the first reference has
  rewritten that occurrence when the second reference is dealt with, so the
  replacement made for the second reference falls into its own token: the rewriter
  returns \<^verbatim>\<open>a{b:url(x.png)} c{d:url(x.png)}\<close>, and not the content in which the second
  reference is left as it was.
\<close>

theorem rewriter_repeated_reference_counterexample:
  "findall_url twice_css = [''i/x.png'', ''i/x.png'']
   \<and> sanitize_filename ''i/x.png'' = ''i/x.png''
   \<and> twice_css = ''a{b:url('' @ ''i/x.png'' @ '')} c{d:'' @ ''url('' @ ''i/x.png'' @ '')'' @ ''}''
   \<and> str_find twice_css ''i/x.png'' = Some (length ''a{b:url('')
   \<and> map_sum id fst
        (copy_linked_resources widget_recipe twice_css ''/src/widget/twice.css'' twice_world)
       = Inr ''a{b:url(x.png)} c{d:url(x.png)}''
   \<and> ''a{b:url(x.png)} c{d:url(x.png)}''
       \<noteq> ''a{b:url('' @ basename ''i/x.png'' @ '')} c{d:'' @ ''url('' @ ''i/x.png'' @ '')'' @ ''}''"
  by (simp add: eval_strings eval_rewriter widget_recipe_def twice_css_def twice_world_def)

text \<open>
  C10, amended: when the rewriter succeeds, the content it returns is the stylesheet in
  which, for each reference in turn, the leftmost occurrence of the reference's sanitised
  filename in the content as the earlier references have left it is replaced by the base
  name; where the name does not occur, the content stays. So when a reference is dealt
  with and the content as it then is has the sanitised filename \<open>f\<close> before the
  reference, the leftmost occurrence being at the end of \<open>pre\<close>, that occurrence is
  replaced and the reference is left as it was, and the rewriter goes on with the later
  references. For a stylesheet with one reference the content returned has the earlier
  occurrence replaced and the reference as it was.
\<close>

theorem rewriter_replaces_leftmost_occurrence:
  assumes "copy_linked_resources self content p w = Inr (content', w')"
  shows "content' = foldl (\<lambda>c tok. replace_leftmost c (sanitize_filename tok)
                                      (basename (sanitize_filename tok)))
                      content (findall_url content)
       \<and> (\<forall>toks1 tok toks2 pre f mid post.
            findall_url content = toks1 @ tok # toks2
          \<longrightarrow> sanitize_filename tok = f
          \<longrightarrow> foldl (\<lambda>c tok. replace_leftmost c (sanitize_filename tok)
                                (basename (sanitize_filename tok))) content toks1
                = pre @ f @ mid @ ''url('' @ tok @ '')'' @ post
          \<longrightarrow> str_find (pre @ f @ mid @ ''url('' @ tok @ '')'' @ post) f = Some (length pre)
          \<longrightarrow> content' = foldl (\<lambda>c tok. replace_leftmost c (sanitize_filename tok)
                                          (basename (sanitize_filename tok)))
                            (pre @ basename f @ mid @ ''url('' @ tok @ '')'' @ post) toks2)
       \<and> (\<forall>tok pre f mid post.
            findall_url content = [tok]
          \<longrightarrow> sanitize_filename tok = f
          \<longrightarrow> content = pre @ f @ mid @ ''url('' @ tok @ '')'' @ post
          \<longrightarrow> str_find content f = Some (length pre)
          \<longrightarrow> content' = pre @ basename f @ mid @ ''url('' @ tok @ '')'' @ post)"
proof -
  let ?step = "\<lambda>c tok. replace_leftmost c (sanitize_filename tok)
                         (basename (sanitize_filename tok))"
  have step: "rewrite_step = ?step"
    by (intro ext) (rule rewrite_step_leftmost)
  from assms have run: "link_resources self p (findall_url content) (content, w) = Inr (content', w')"
    by (simp add: copy_linked_resources_def)
  from link_resources_Inr [OF run] step
  have all: "content' = foldl ?step content (findall_url content)" by simp
  have one: "?step (pre @ f @ mid @ ''url('' @ tok @ '')'' @ post) tok
      = pre @ basename f @ mid @ ''url('' @ tok @ '')'' @ post"
    if "sanitize_filename tok = f"
      and "str_find (pre @ f @ mid @ ''url('' @ tok @ '')'' @ post) f = Some (length pre)"
    for tok pre f mid post
    using that by (simp add: replace_leftmost_def)
  have later: "content' = foldl ?step (pre @ basename f @ mid @ ''url('' @ tok @ '')'' @ post) toks2"
    if "findall_url content = toks1 @ tok # toks2" and "sanitize_filename tok = f"
      and "foldl ?step content toks1 = pre @ f @ mid @ ''url('' @ tok @ '')'' @ post"
      and "str_find (pre @ f @ mid @ ''url('' @ tok @ '')'' @ post) f = Some (length pre)"
    for toks1 tok toks2 pre f mid post
  proof -
    from all that(1) have "content' = foldl ?step (?step (foldl ?step content toks1) tok) toks2"
      by simp
    also have "?step (foldl ?step content toks1) tok
        = pre @ basename f @ mid @ ''url('' @ tok @ '')'' @ post"
      unfolding that(3) by (rule one [OF that(2) that(4)])
    finally show ?thesis .
  qed
  have single: "content' = pre @ basename f @ mid @ ''url('' @ tok @ '')'' @ post"
    if "findall_url content = [tok]" and "sanitize_filename tok = f"
      and "content = pre @ f @ mid @ ''url('' @ tok @ '')'' @ post"
      and "str_find content f = Some (length pre)"
    for tok pre f mid post
  proof -
    from that(1) have a: "findall_url content = [] @ tok # []" by simp
    have b: "foldl ?step content [] = pre @ f @ mid @ ''url('' @ tok @ '')'' @ post"
      using that(3) by simp
    have c: "str_find (pre @ f @ mid @ ''url('' @ tok @ '')'' @ post) f = Some (length pre)"
      using that(3,4) by simp
    from later [OF a that(2) b c]
    have "content' = foldl ?step (pre @ basename f @ mid @ ''url('' @ tok @ '')'' @ post) []" .
    then show ?thesis by simp
  qed
  from all later single show ?thesis by blast
qed

theorem rewriter_replaces_leftmost_occurrence_witness:
  "map_sum id fst
     (copy_linked_resources widget_recipe noted_css ''/src/widget/noted.css'' twice_world)
   = Inr ''/* x.png x.png */ a{b:url(i/x.png)} c{d:url(i/x.png)}''
   \<and> map_sum id fst
     (copy_linked_resources widget_recipe comment_css ''/src/widget/comment.css'' css_world)
   = Inr ''/* logo.png */ a{b:url(icons/logo.png)}''"
proof -
  let ?step = "\<lambda>c tok. replace_leftmost c (sanitize_filename tok)
                         (basename (sanitize_filename tok))"
  let ?w2 = "stage ''/src/widget/i/x.png'' ''/out/bowerstatic_bundle_widget/x.png''
               (stage ''/src/widget/i/x.png'' ''/out/bowerstatic_bundle_widget/x.png''
                  twice_world)"
  let ?c2 = "''/* x.png x.png */ a{b:url(i/x.png)} c{d:url(i/x.png)}''"
  have run2: "copy_linked_resources widget_recipe noted_css ''/src/widget/noted.css'' twice_world
      = Inr (?c2, ?w2)"
    by (simp add: eval_strings eval_rewriter widget_recipe_def noted_css_def twice_world_def)
  have toks2: "findall_url noted_css = [''i/x.png''] @ ''i/x.png'' # []"
    by (simp add: noted_css_def eval_strings)
  have name2: "sanitize_filename ''i/x.png'' = ''i/x.png''"
    by (simp add: eval_strings)
  have sofar: "foldl ?step noted_css [''i/x.png'']
      = ''/* x.png '' @ ''i/x.png'' @ '' */ a{b:url(i/x.png)} c{d:'' @ ''url('' @ ''i/x.png''
          @ '')'' @ ''}''"
    by (simp add: noted_css_def replace_leftmost_def eval_strings)
  have leftmost2: "str_find (''/* x.png '' @ ''i/x.png'' @ '' */ a{b:url(i/x.png)} c{d:''
        @ ''url('' @ ''i/x.png'' @ '')'' @ ''}'') ''i/x.png'' = Some (length ''/* x.png '')"
    by (simp add: eval_strings)
  from rewriter_replaces_leftmost_occurrence [OF run2]
  have "\<forall>toks1 tok toks2 pre f mid post.
            findall_url noted_css = toks1 @ tok # toks2
          \<longrightarrow> sanitize_filename tok = f
          \<longrightarrow> foldl ?step noted_css toks1 = pre @ f @ mid @ ''url('' @ tok @ '')'' @ post
          \<longrightarrow> str_find (pre @ f @ mid @ ''url('' @ tok @ '')'' @ post) f = Some (length pre)
          \<longrightarrow> ?c2 = foldl ?step (pre @ basename f @ mid @ ''url('' @ tok @ '')'' @ post) toks2"
    by blast
  from this toks2 name2 sofar leftmost2
  have out2: "?c2 = foldl ?step (''/* x.png '' @ basename ''i/x.png''
        @ '' */ a{b:url(i/x.png)} c{d:'' @ ''url('' @ ''i/x.png'' @ '')'' @ ''}'') []"
    by blast
  let ?w1 = "stage ''/src/widget/icons/logo.png'' ''/out/bowerstatic_bundle_widget/logo.png'' css_world"
  let ?c1 = "''/* logo.png */ a{b:url(icons/logo.png)}''"
  have run1: "copy_linked_resources widget_recipe comment_css ''/src/widget/comment.css'' css_world
      = Inr (?c1, ?w1)"
    by (simp add: eval_strings eval_rewriter widget_recipe_def comment_css_def css_world_def)
  have toks1: "findall_url comment_css = [''icons/logo.png'']"
    by (simp add: comment_css_def eval_strings)
  have name1: "sanitize_filename ''icons/logo.png'' = ''icons/logo.png''"
    by (simp add: eval_strings)
  have shape1: "comment_css
      = ''/* '' @ ''icons/logo.png'' @ '' */ a{b:'' @ ''url('' @ ''icons/logo.png'' @ '')'' @ ''}''"
    by (simp add: comment_css_def)
  have leftmost1: "str_find comment_css ''icons/logo.png'' = Some (length ''/* '')"
    by (simp add: comment_css_def eval_strings)
  from rewriter_replaces_leftmost_occurrence [OF run1]
  have "\<forall>tok pre f mid post.
            findall_url comment_css = [tok]
          \<longrightarrow> sanitize_filename tok = f
          \<longrightarrow> comment_css = pre @ f @ mid @ ''url('' @ tok @ '')'' @ post
          \<longrightarrow> str_find comment_css f = Some (length pre)
          \<longrightarrow> ?c1 = pre @ basename f @ mid @ ''url('' @ tok @ '')'' @ post"
    by blast
  from this toks1 name1 shape1 leftmost1
  have out1: "?c1 = ''/* '' @ basename ''icons/logo.png'' @ '' */ a{b:'' @ ''url(''
        @ ''icons/logo.png'' @ '')'' @ ''}''"
    by blast
  from run1 run2 out1 out2 show ?thesis by simp
qed

end
